theory Spec2Isabelle
  imports Main
begin

section \<open>Lexical analyzer for Python and TypeScript (lexer.c)\<close>

text \<open>
  A C string is modelled by the list of its bytes before the terminating NUL, so
  \<open>strlen\<close> is \<open>length\<close>. Indices, counters and line numbers are natural numbers:
  they start at 0 or 1 and are only incremented, and they stay below the length of the
  source text, which the program holds in an \<open>int\<close>. Writes past the end of one of the
  fixed-size arrays of the program have no defined result in C; the model returns a
  \<open>fault\<close> there.
\<close>

subsection \<open>Characters and the C library\<close>

definition newline :: char where "newline = CHR 0x0A"
definition squote :: char where "squote = CHR 0x27"
definition dquote :: char where "dquote = CHR 0x22"
definition backslash :: char where "backslash = CHR 0x5C"
definition backtick :: char where "backtick = CHR 0x60"

text \<open>The classification functions of \<open>ctype.h\<close> in the "C" locale (the program never
  calls \<open>setlocale\<close>): only ASCII letters, digits and the six white-space characters.
  A byte above \<open>0x7F\<close> is in no class and \<open>tolower\<close> leaves it as it is.\<close>

definition isdigit :: "char \<Rightarrow> bool" where
  "isdigit c = (c \<in> set ''0123456789'')"

definition isupper :: "char \<Rightarrow> bool" where
  "isupper c = (c \<in> set ''ABCDEFGHIJKLMNOPQRSTUVWXYZ'')"

definition islower :: "char \<Rightarrow> bool" where
  "islower c = (c \<in> set ''abcdefghijklmnopqrstuvwxyz'')"

definition isalpha :: "char \<Rightarrow> bool" where
  "isalpha c = (isupper c \<or> islower c)"

definition isalnum :: "char \<Rightarrow> bool" where
  "isalnum c = (isalpha c \<or> isdigit c)"

definition isspace :: "char \<Rightarrow> bool" where
  "isspace c = (c \<in> set [CHR 0x20, CHR 0x09, CHR 0x0A, CHR 0x0B, CHR 0x0C, CHR 0x0D])"

definition tolower :: "char \<Rightarrow> char" where
  "tolower c =
     (case map_of (zip ''ABCDEFGHIJKLMNOPQRSTUVWXYZ'' ''abcdefghijklmnopqrstuvwxyz'') c of
        Some l \<Rightarrow> l
      | None \<Rightarrow> c)"

subsection \<open>Constants\<close>

definition MAX_TOKENS :: nat where "MAX_TOKENS = 1000"
definition MAX_COMMENTS :: nat where "MAX_COMMENTS = 100"
definition MAX_ERRORS :: nat where "MAX_ERRORS = 100"
definition MAX_SYMBOLS :: nat where "MAX_SYMBOLS = 500"
definition MAX_LENGTH :: nat where "MAX_LENGTH = 1024"

definition PYTHON_KEYWORDS :: "string list" where
  "PYTHON_KEYWORDS =
    [''False'', ''None'', ''True'', ''and'', ''as'', ''assert'', ''async'', ''await'',
     ''break'', ''class'', ''continue'', ''def'', ''del'', ''elif'', ''else'', ''except'',
     ''finally'', ''for'', ''from'', ''global'', ''if'', ''import'', ''in'', ''is'',
     ''lambda'', ''nonlocal'', ''not'', ''or'', ''pass'', ''raise'', ''return'', ''try'',
     ''while'', ''with'', ''yield'', ''int'', ''float'', ''str'', ''bool'', ''list'', ''dict'']"

definition TYPESCRIPT_KEYWORDS :: "string list" where
  "TYPESCRIPT_KEYWORDS =
    [''break'', ''case'', ''catch'', ''class'', ''const'', ''continue'', ''debugger'',
     ''default'', ''delete'', ''do'', ''else'', ''enum'', ''export'', ''extends'', ''false'',
     ''finally'', ''for'', ''function'', ''if'', ''import'', ''in'', ''instanceof'',
     ''interface'', ''let'', ''new'', ''null'', ''return'', ''super'', ''switch'', ''this'',
     ''throw'', ''true'', ''try'', ''typeof'', ''var'', ''void'', ''while'', ''with'',
     ''number'', ''string'', ''boolean'', ''any'', ''never'', ''unknown'', ''async'', ''await'']"

datatype Language = LANG_PYTHON | LANG_TYPESCRIPT

subsection \<open>Levenshtein distance\<close>

definition min_of_three :: "int \<Rightarrow> int \<Rightarrow> int \<Rightarrow> int" where
  "min_of_three a b c =
     (let m = a;
          m = (if b < m then b else m);
          m = (if c < m then c else m)
      in m)"

text \<open>The matrix \<open>matrix[len1 + 1][len2 + 1]\<close> is a function of the two indices. It is
  not initialised by its declaration, so its first content \<open>m0\<close> is a parameter.\<close>

type_synonym matrix = "nat \<Rightarrow> nat \<Rightarrow> int"

definition matrix_set :: "matrix \<Rightarrow> nat \<Rightarrow> nat \<Rightarrow> int \<Rightarrow> matrix" where
  "matrix_set m i j v = m(i := (m i)(j := v))"

definition subst_cost :: "string \<Rightarrow> string \<Rightarrow> nat \<Rightarrow> nat \<Rightarrow> int" where
  "subst_cost str1 str2 i j = (if tolower (str1 ! (i - 1)) = tolower (str2 ! (j - 1)) then 0 else 1)"

definition lev_cell :: "string \<Rightarrow> string \<Rightarrow> nat \<Rightarrow> nat \<Rightarrow> matrix \<Rightarrow> matrix" where
  "lev_cell str1 str2 i j m =
     matrix_set m i j
       (min_of_three (m (i - 1) j + 1) (m i (j - 1) + 1) (m (i - 1) (j - 1) + subst_cost str1 str2 i j))"

definition lev_fill :: "string \<Rightarrow> string \<Rightarrow> matrix \<Rightarrow> matrix" where
  "lev_fill str1 str2 m0 =
     (let len1 = length str1;
          len2 = length str2;
          m = fold (\<lambda>i m. matrix_set m i 0 (int i)) [0..<Suc len1] m0;
          m = fold (\<lambda>j m. matrix_set m 0 j (int j)) [0..<Suc len2] m
      in fold (\<lambda>i m. fold (\<lambda>j m. lev_cell str1 str2 i j m) [1..<Suc len2] m) [1..<Suc len1] m)"

definition levenshtein_distance_from :: "matrix \<Rightarrow> string \<Rightarrow> string \<Rightarrow> int" where
  "levenshtein_distance_from m0 str1 str2 = lev_fill str1 str2 m0 (length str1) (length str2)"

definition levenshtein_distance :: "string \<Rightarrow> string \<Rightarrow> int" where
  "levenshtein_distance str1 str2 = levenshtein_distance_from (\<lambda>_ _. 0) str1 str2"

text \<open>The recurrence that the matrix tabulates.\<close>

fun lev_rec :: "string \<Rightarrow> string \<Rightarrow> nat \<Rightarrow> nat \<Rightarrow> int" where
  "lev_rec a b 0 j = int j"
| "lev_rec a b (Suc i) 0 = int (Suc i)"
| "lev_rec a b (Suc i) (Suc j) =
     min_of_three (lev_rec a b i (Suc j) + 1) (lev_rec a b (Suc i) j + 1)
       (lev_rec a b i j + subst_cost a b (Suc i) (Suc j))"

subsection \<open>Data structures\<close>

datatype token_type =
  KEYWORD | IDENTIFIER | INT_LITERAL | FLOAT_LITERAL | STRING_LITERAL | OPERATOR | DELIMITER

record Token =
  tok_value :: string
  tok_type :: token_type
  tok_line :: nat

record Comment =
  content :: string
  start_line :: nat
  end_line :: nat
  is_multiline :: bool

datatype ErrorType =
  ERROR_TYPE_MISSPELLED_KEYWORD
| ERROR_TYPE_TYPE_MISMATCH
| ERROR_TYPE_UNDECLARED_IDENTIFIER
| ERROR_TYPE_INVALID_OPERATOR

record Error =
  message :: string
  line_number :: nat
  error_type :: ErrorType

text \<open>
  The arrays have fixed sizes: \<open>content[MAX_LENGTH]\<close> in a comment, \<open>value[256]\<close> in a
  token, \<open>MAX_COMMENTS\<close> comments and \<open>MAX_ERRORS\<close> errors. Only the token count is
  checked by the program. A write past one of the other arrays is a \<open>fault\<close>.
\<close>

datatype fault = Comments_Full | Content_Full | Value_Full | Errors_Full

definition VALUE_SIZE :: nat where "VALUE_SIZE = 256"

subsection \<open>Utility functions\<close>

definition is_python_keyword :: "string \<Rightarrow> bool" where
  "is_python_keyword word = (word \<in> set PYTHON_KEYWORDS)"

definition is_typescript_keyword :: "string \<Rightarrow> bool" where
  "is_typescript_keyword word = (word \<in> set TYPESCRIPT_KEYWORDS)"

text \<open>\<open>strchr\<close> also finds the terminating NUL of the string it searches.\<close>

definition is_operator_char :: "char \<Rightarrow> bool" where
  "is_operator_char c = (c \<in> set ''+-*/%=<>!&|^~'' \<or> c = CHR 0x00)"

definition is_delimiter_char :: "char \<Rightarrow> bool" where
  "is_delimiter_char c = (c \<in> set ''()[]{},:;.'' \<or> c = CHR 0x00)"

subsection \<open>Comment extraction\<close>

definition not_newline :: "char \<Rightarrow> bool" where
  "not_newline c = (c \<noteq> newline)"

text \<open>The test for three equal quote characters at the current index, which also
  requires \<open>source_index + 2 < source_length\<close>.\<close>

fun python_opener :: "string \<Rightarrow> bool" where
  "python_opener (a # b # c # rest) =
     ((a = squote \<and> b = squote \<and> c = squote) \<or> (a = dquote \<and> b = dquote \<and> c = dquote))"
| "python_opener src = False"

text \<open>The loop "copy until closing quotes", entered after the three opening quotes. It
  returns the bytes copied, the rest of the source and the line counter.\<close>

fun python_multiline_body :: "char \<Rightarrow> string \<Rightarrow> nat \<Rightarrow> string \<times> string \<times> nat" where
  "python_multiline_body quote_char (a # b # c # rest) current_line =
     (if a = quote_char \<and> b = quote_char \<and> c = quote_char
      then ([a, b, c], rest, if a = newline then current_line + 1 else current_line)
      else (case python_multiline_body quote_char (b # c # rest)
                   (if a = newline then current_line + 1 else current_line) of
              (body, src', line') \<Rightarrow> (a # body, src', line')))"
| "python_multiline_body quote_char src current_line = ([], src, current_line)"

function extract_comments_python_loop ::
  "string \<Rightarrow> nat \<Rightarrow> Comment list \<Rightarrow> string \<Rightarrow> fault + (Comment list \<times> string)" where
  "extract_comments_python_loop [] current_line comments clean = Inr (comments, clean)"
| "extract_comments_python_loop (c # rest) current_line comments clean =
     (if c = CHR ''#'' then
        (if MAX_COMMENTS \<le> length comments then Inl Comments_Full
         else if MAX_LENGTH \<le> length (takeWhile not_newline (c # rest)) then Inl Content_Full
         else extract_comments_python_loop (dropWhile not_newline (c # rest)) current_line
                (comments @ [\<lparr>content = takeWhile not_newline (c # rest),
                               start_line = current_line, end_line = current_line,
                               is_multiline = False\<rparr>]) clean)
      else if python_opener (c # rest) then
        (if MAX_COMMENTS \<le> length comments then Inl Comments_Full
         else (case python_multiline_body c (drop 3 (c # rest)) current_line of
                 (body, src', line') \<Rightarrow>
                   if MAX_LENGTH \<le> length (take 3 (c # rest) @ body) then Inl Content_Full
                   else extract_comments_python_loop src' line'
                          (comments @ [\<lparr>content = take 3 (c # rest) @ body,
                                         start_line = current_line, end_line = line',
                                         is_multiline = True\<rparr>]) clean))
      else extract_comments_python_loop rest
             (if c = newline then current_line + 1 else current_line) comments (clean @ [c]))"
  by pat_completeness auto

lemma python_multiline_body_length:
  "python_multiline_body q src line = (body, src', line') \<Longrightarrow> length src' \<le> length src"
  by (induction q src line arbitrary: body src' line' rule: python_multiline_body.induct)
     (auto split: if_splits prod.splits)

termination extract_comments_python_loop
proof (relation "measure (\<lambda>(src, line, comments, clean). length src)", goal_cases)
  case 1
  show ?case by simp
next
  case (2 c rest current_line comments clean)
  then show ?case
    using length_dropWhile_le[of not_newline rest] by (simp add: not_newline_def newline_def)
next
  case (3 c rest current_line comments clean body y src' line')
  then have "python_multiline_body c (drop 3 (c # rest)) current_line = (body, src', line')"
    by simp
  from python_multiline_body_length[OF this] 3(2)
  show ?case
    by (cases rest) auto
next
  case (4 c rest current_line comments clean)
  show ?case by simp
qed

definition extract_comments_python :: "string \<Rightarrow> fault + (Comment list \<times> string)" where
  "extract_comments_python source_code = extract_comments_python_loop source_code 1 [] []"

text \<open>The TypeScript openers \<open>//\<close> and \<open>/*\<close>, which both also require
  \<open>source_index + 1 < source_length\<close>.\<close>

fun typescript_line_opener :: "string \<Rightarrow> bool" where
  "typescript_line_opener (a # b # rest) = (a = CHR ''/'' \<and> b = CHR ''/'')"
| "typescript_line_opener src = False"

fun typescript_block_opener :: "string \<Rightarrow> bool" where
  "typescript_block_opener (a # b # rest) = (a = CHR ''/'' \<and> b = CHR ''*'')"
| "typescript_block_opener src = False"

fun typescript_multiline_body :: "string \<Rightarrow> nat \<Rightarrow> string \<times> string \<times> nat" where
  "typescript_multiline_body (a # b # rest) current_line =
     (if a = CHR ''*'' \<and> b = CHR ''/''
      then ([a, b], rest, if a = newline then current_line + 1 else current_line)
      else (case typescript_multiline_body (b # rest)
                   (if a = newline then current_line + 1 else current_line) of
              (body, src', line') \<Rightarrow> (a # body, src', line')))"
| "typescript_multiline_body src current_line = ([], src, current_line)"

function extract_comments_typescript_loop ::
  "string \<Rightarrow> nat \<Rightarrow> Comment list \<Rightarrow> string \<Rightarrow> fault + (Comment list \<times> string)" where
  "extract_comments_typescript_loop [] current_line comments clean = Inr (comments, clean)"
| "extract_comments_typescript_loop (c # rest) current_line comments clean =
     (if typescript_line_opener (c # rest) then
        (if MAX_COMMENTS \<le> length comments then Inl Comments_Full
         else if MAX_LENGTH \<le> length (takeWhile not_newline (c # rest)) then Inl Content_Full
         else extract_comments_typescript_loop (dropWhile not_newline (c # rest)) current_line
                (comments @ [\<lparr>content = takeWhile not_newline (c # rest),
                               start_line = current_line, end_line = current_line,
                               is_multiline = False\<rparr>]) clean)
      else if typescript_block_opener (c # rest) then
        (if MAX_COMMENTS \<le> length comments then Inl Comments_Full
         else (case typescript_multiline_body (drop 2 (c # rest)) current_line of
                 (body, src', line') \<Rightarrow>
                   if MAX_LENGTH \<le> length (take 2 (c # rest) @ body) then Inl Content_Full
                   else extract_comments_typescript_loop src' line'
                          (comments @ [\<lparr>content = take 2 (c # rest) @ body,
                                         start_line = current_line, end_line = line',
                                         is_multiline = True\<rparr>]) clean))
      else extract_comments_typescript_loop rest
             (if c = newline then current_line + 1 else current_line) comments (clean @ [c]))"
  by pat_completeness auto

lemma typescript_multiline_body_length:
  "typescript_multiline_body src line = (body, src', line') \<Longrightarrow> length src' \<le> length src"
  by (induction src line arbitrary: body src' line' rule: typescript_multiline_body.induct)
     (auto split: if_splits prod.splits)

termination extract_comments_typescript_loop
proof (relation "measure (\<lambda>(src, line, comments, clean). length src)", goal_cases)
  case 1
  show ?case by simp
next
  case (2 c rest current_line comments clean)
  then obtain rest' where "rest = CHR ''/'' # rest'" "c = CHR ''/''"
    by (cases rest) auto
  then show ?case
    using length_dropWhile_le[of not_newline rest'] by (simp add: not_newline_def newline_def)
next
  case (3 c rest current_line comments clean body y src' line')
  then have "typescript_multiline_body (drop 2 (c # rest)) current_line = (body, src', line')"
    by simp
  from typescript_multiline_body_length[OF this] 3(2)
  show ?case
    by (cases rest) auto
next
  case (4 c rest current_line comments clean)
  show ?case by simp
qed

definition extract_comments_typescript :: "string \<Rightarrow> fault + (Comment list \<times> string)" where
  "extract_comments_typescript source_code = extract_comments_typescript_loop source_code 1 [] []"

definition extract_comments :: "Language \<Rightarrow> string \<Rightarrow> fault + (Comment list \<times> string)" where
  "extract_comments lang source_code =
     (case lang of
        LANG_PYTHON \<Rightarrow> extract_comments_python source_code
      | LANG_TYPESCRIPT \<Rightarrow> extract_comments_typescript source_code)"

subsection \<open>Tokenizer\<close>

fun skip_whitespace :: "string \<Rightarrow> nat \<Rightarrow> string \<times> nat" where
  "skip_whitespace [] current_line = ([], current_line)"
| "skip_whitespace (c # rest) current_line =
     (if isspace c
      then skip_whitespace rest (if c = newline then current_line + 1 else current_line)
      else (c # rest, current_line))"

definition ident_char_python :: "char \<Rightarrow> bool" where
  "ident_char_python c = (isalnum c \<or> c = CHR ''_'')"

definition ident_char_typescript :: "char \<Rightarrow> bool" where
  "ident_char_typescript c = (isalnum c \<or> c = CHR ''_'' \<or> c = CHR ''$'')"

definition number_char :: "char \<Rightarrow> bool" where
  "number_char c = (isdigit c \<or> c = CHR ''.'')"

text \<open>The loop of a string literal after its opening quote: the bytes copied (with the
  closing quote when there is one) and the rest of the source.\<close>

fun scan_string_python :: "char \<Rightarrow> string \<Rightarrow> string \<times> string" where
  "scan_string_python quote_char [] = ([], [])"
| "scan_string_python quote_char [c] = (if c = quote_char then ([c], []) else ([c], []))"
| "scan_string_python quote_char (c # d # rest) =
     (if c = quote_char then ([c], d # rest)
      else if c = backslash
      then (case scan_string_python quote_char rest of (v, src') \<Rightarrow> (c # d # v, src'))
      else (case scan_string_python quote_char (d # rest) of (v, src') \<Rightarrow> (c # v, src')))"

text \<open>The TypeScript loop also counts the newlines inside the literal.\<close>

fun scan_string_typescript :: "char \<Rightarrow> string \<Rightarrow> nat \<Rightarrow> string \<times> string \<times> nat" where
  "scan_string_typescript quote_char [] current_line = ([], [], current_line)"
| "scan_string_typescript quote_char [c] current_line =
     (if c = quote_char then ([c], [], current_line)
      else ([c], [], if c = newline then current_line + 1 else current_line))"
| "scan_string_typescript quote_char (c # d # rest) current_line =
     (if c = quote_char then ([c], d # rest, current_line)
      else if c = backslash
      then (case scan_string_typescript quote_char rest
                   (if d = newline then current_line + 1 else current_line) of
              (v, src', line') \<Rightarrow> (c # d # v, src', line'))
      else (case scan_string_typescript quote_char (d # rest)
                   (if c = newline then current_line + 1 else current_line) of
              (v, src', line') \<Rightarrow> (c # v, src', line')))"

definition operator_text :: "string \<Rightarrow> string" where
  "operator_text src = take 3 (takeWhile is_operator_char src)"

lemma skip_whitespace_length:
  "skip_whitespace src line = (src', line') \<Longrightarrow> length src' \<le> length src"
  by (induction src line arbitrary: src' line' rule: skip_whitespace.induct)
     (auto split: if_splits)

lemma scan_string_python_length:
  "scan_string_python q src = (v, src') \<Longrightarrow> length src' \<le> length src"
  by (induction q src arbitrary: v src' rule: scan_string_python.induct)
     (auto split: if_splits prod.splits)

lemma scan_string_typescript_length:
  "scan_string_typescript q src line = (v, src', line') \<Longrightarrow> length src' \<le> length src"
  by (induction q src line arbitrary: v src' line' rule: scan_string_typescript.induct)
     (auto split: if_splits prod.splits)

function tokenize_python_loop :: "string \<Rightarrow> nat \<Rightarrow> Token list \<Rightarrow> fault + Token list" where
  "tokenize_python_loop [] current_line tokens = Inr tokens"
| "tokenize_python_loop (c0 # rest0) current_line tokens =
     (if MAX_TOKENS \<le> length tokens then Inr tokens
      else (case skip_whitespace (c0 # rest0) current_line of
        (src, line) \<Rightarrow>
          (case src of
             [] \<Rightarrow> Inr tokens
           | c # rest \<Rightarrow>
               if isalpha c \<or> c = CHR ''_'' then
                 (if VALUE_SIZE \<le> length (takeWhile ident_char_python src) then Inl Value_Full
                  else tokenize_python_loop (dropWhile ident_char_python src) line
                         (tokens @ [\<lparr>tok_value = takeWhile ident_char_python src,
                                      tok_type = (if is_python_keyword (takeWhile ident_char_python src)
                                                  then KEYWORD else IDENTIFIER),
                                      tok_line = line\<rparr>]))
               else if isdigit c then
                 (if VALUE_SIZE \<le> length (takeWhile number_char src) then Inl Value_Full
                  else tokenize_python_loop (dropWhile number_char src) line
                         (tokens @ [\<lparr>tok_value = takeWhile number_char src,
                                      tok_type = (if CHR ''.'' \<in> set (takeWhile number_char src)
                                                  then FLOAT_LITERAL else INT_LITERAL),
                                      tok_line = line\<rparr>]))
               else if c = dquote \<or> c = squote then
                 (case scan_string_python c rest of
                    (v, src') \<Rightarrow>
                      if VALUE_SIZE \<le> length (c # v) then Inl Value_Full
                      else tokenize_python_loop src' line
                             (tokens @ [\<lparr>tok_value = c # v, tok_type = STRING_LITERAL,
                                          tok_line = line\<rparr>]))
               else if is_operator_char c then
                 tokenize_python_loop (drop (length (operator_text src)) src) line
                   (tokens @ [\<lparr>tok_value = operator_text src, tok_type = OPERATOR,
                                tok_line = line\<rparr>])
               else if is_delimiter_char c then
                 tokenize_python_loop rest line
                   (tokens @ [\<lparr>tok_value = [c], tok_type = DELIMITER, tok_line = line\<rparr>])
               else tokenize_python_loop rest line tokens)))"
  by pat_completeness auto

lemma dropWhile_first_length: "P c \<Longrightarrow> length (dropWhile P (c # rest)) \<le> length rest"
  by (simp add: length_dropWhile_le)

lemma ident_start_python: "isalpha c \<or> c = CHR ''_'' \<Longrightarrow> ident_char_python c"
  by (auto simp: ident_char_python_def isalnum_def)

lemma ident_start_typescript:
  "isalpha c \<or> c = CHR ''_'' \<or> c = CHR ''$'' \<Longrightarrow> ident_char_typescript c"
  by (auto simp: ident_char_typescript_def isalnum_def)

lemma number_start: "isdigit c \<Longrightarrow> number_char c"
  by (simp add: number_char_def)

lemma operator_text_first:
  "is_operator_char c \<Longrightarrow> operator_text (c # rest) = c # take 2 (takeWhile is_operator_char rest)"
  by (simp add: operator_text_def numeral_3_eq_3 numeral_2_eq_2)

lemma operator_drop_length:
  "is_operator_char c \<Longrightarrow> length (drop (length (operator_text (c # rest))) (c # rest)) \<le> length rest"
  by (simp add: operator_text_first)

termination tokenize_python_loop
proof (relation "measure (\<lambda>(src, line, tokens). length src)", goal_cases)
  case 1
  show ?case by simp
next
  case (2 c0 rest0 current_line tokens src line c rest)
  from 2(2,3) have "length (c # rest) \<le> length (c0 # rest0)"
    using skip_whitespace_length[of "c0 # rest0" current_line src line] by simp
  moreover have "length (dropWhile ident_char_python (c # rest)) \<le> length rest"
    using 2(4) by (intro dropWhile_first_length ident_start_python)
  ultimately show ?case using 2(3) by simp
next
  case (3 c0 rest0 current_line tokens src line c rest)
  from 3(2,3) have "length (c # rest) \<le> length (c0 # rest0)"
    using skip_whitespace_length[of "c0 # rest0" current_line src line] by simp
  moreover have "length (dropWhile number_char (c # rest)) \<le> length rest"
    using 3(5) by (intro dropWhile_first_length number_start)
  ultimately show ?case using 3(3) by simp
next
  case (4 c0 rest0 current_line tokens src line c rest v src')
  from 4(2,3) have "length (c # rest) \<le> length (c0 # rest0)"
    using skip_whitespace_length[of "c0 # rest0" current_line src line] by simp
  moreover have "length src' \<le> length rest"
    using 4(7) scan_string_python_length[of c rest v src'] by simp
  ultimately show ?case by simp
next
  case (5 c0 rest0 current_line tokens src line c rest)
  from 5(2,3) have "length (c # rest) \<le> length (c0 # rest0)"
    using skip_whitespace_length[of "c0 # rest0" current_line src line] by simp
  moreover have "length (drop (length (operator_text (c # rest))) (c # rest)) \<le> length rest"
    using 5(7) by (rule operator_drop_length)
  ultimately show ?case using 5(3) by simp
next
  case (6 c0 rest0 current_line tokens src line c rest)
  from 6(2,3) have "length (c # rest) \<le> length (c0 # rest0)"
    using skip_whitespace_length[of "c0 # rest0" current_line src line] by simp
  then show ?case by simp
next
  case (7 c0 rest0 current_line tokens src line c rest)
  from 7(2,3) have "length (c # rest) \<le> length (c0 # rest0)"
    using skip_whitespace_length[of "c0 # rest0" current_line src line] by simp
  then show ?case by simp
qed

definition tokenize_python :: "string \<Rightarrow> fault + Token list" where
  "tokenize_python source_code = tokenize_python_loop source_code 1 []"

function tokenize_typescript_loop :: "string \<Rightarrow> nat \<Rightarrow> Token list \<Rightarrow> fault + Token list" where
  "tokenize_typescript_loop [] current_line tokens = Inr tokens"
| "tokenize_typescript_loop (c0 # rest0) current_line tokens =
     (if MAX_TOKENS \<le> length tokens then Inr tokens
      else (case skip_whitespace (c0 # rest0) current_line of
        (src, line) \<Rightarrow>
          (case src of
             [] \<Rightarrow> Inr tokens
           | c # rest \<Rightarrow>
               if isalpha c \<or> c = CHR ''_'' \<or> c = CHR ''$'' then
                 (if VALUE_SIZE \<le> length (takeWhile ident_char_typescript src) then Inl Value_Full
                  else tokenize_typescript_loop (dropWhile ident_char_typescript src) line
                         (tokens @ [\<lparr>tok_value = takeWhile ident_char_typescript src,
                                      tok_type = (if is_typescript_keyword (takeWhile ident_char_typescript src)
                                                  then KEYWORD else IDENTIFIER),
                                      tok_line = line\<rparr>]))
               else if isdigit c then
                 (if VALUE_SIZE \<le> length (takeWhile number_char src) then Inl Value_Full
                  else tokenize_typescript_loop (dropWhile number_char src) line
                         (tokens @ [\<lparr>tok_value = takeWhile number_char src,
                                      tok_type = (if CHR ''.'' \<in> set (takeWhile number_char src)
                                                  then FLOAT_LITERAL else INT_LITERAL),
                                      tok_line = line\<rparr>]))
               else if c = dquote \<or> c = squote \<or> c = backtick then
                 (case scan_string_typescript c rest line of
                    (v, src', line') \<Rightarrow>
                      if VALUE_SIZE \<le> length (c # v) then Inl Value_Full
                      else tokenize_typescript_loop src' line'
                             (tokens @ [\<lparr>tok_value = c # v, tok_type = STRING_LITERAL,
                                          tok_line = line'\<rparr>]))
               else if is_operator_char c then
                 tokenize_typescript_loop (drop (length (operator_text src)) src) line
                   (tokens @ [\<lparr>tok_value = operator_text src, tok_type = OPERATOR,
                                tok_line = line\<rparr>])
               else if is_delimiter_char c then
                 tokenize_typescript_loop rest line
                   (tokens @ [\<lparr>tok_value = [c], tok_type = DELIMITER, tok_line = line\<rparr>])
               else tokenize_typescript_loop rest line tokens)))"
  by pat_completeness auto

termination tokenize_typescript_loop
proof (relation "measure (\<lambda>(src, line, tokens). length src)", goal_cases)
  case 1
  show ?case by simp
next
  case (2 c0 rest0 current_line tokens src line c rest)
  from 2(2,3) have "length (c # rest) \<le> length (c0 # rest0)"
    using skip_whitespace_length[of "c0 # rest0" current_line src line] by simp
  moreover have "length (dropWhile ident_char_typescript (c # rest)) \<le> length rest"
    using 2(4) by (intro dropWhile_first_length ident_start_typescript)
  ultimately show ?case using 2(3) by simp
next
  case (3 c0 rest0 current_line tokens src line c rest)
  from 3(2,3) have "length (c # rest) \<le> length (c0 # rest0)"
    using skip_whitespace_length[of "c0 # rest0" current_line src line] by simp
  moreover have "length (dropWhile number_char (c # rest)) \<le> length rest"
    using 3(5) by (intro dropWhile_first_length number_start)
  ultimately show ?case using 3(3) by simp
next
  case (4 c0 rest0 current_line tokens src line c rest v y src' line')
  from 4(2,3) have "length (c # rest) \<le> length (c0 # rest0)"
    using skip_whitespace_length[of "c0 # rest0" current_line src line] by simp
  moreover have "length src' \<le> length rest"
    using 4(7,8) scan_string_typescript_length[of c rest line v src' line'] by simp
  ultimately show ?case by simp
next
  case (5 c0 rest0 current_line tokens src line c rest)
  from 5(2,3) have "length (c # rest) \<le> length (c0 # rest0)"
    using skip_whitespace_length[of "c0 # rest0" current_line src line] by simp
  moreover have "length (drop (length (operator_text (c # rest))) (c # rest)) \<le> length rest"
    using 5(7) by (rule operator_drop_length)
  ultimately show ?case using 5(3) by simp
next
  case (6 c0 rest0 current_line tokens src line c rest)
  from 6(2,3) have "length (c # rest) \<le> length (c0 # rest0)"
    using skip_whitespace_length[of "c0 # rest0" current_line src line] by simp
  then show ?case by simp
next
  case (7 c0 rest0 current_line tokens src line c rest)
  from 7(2,3) have "length (c # rest) \<le> length (c0 # rest0)"
    using skip_whitespace_length[of "c0 # rest0" current_line src line] by simp
  then show ?case by simp
qed

definition tokenize_typescript :: "string \<Rightarrow> fault + Token list" where
  "tokenize_typescript source_code = tokenize_typescript_loop source_code 1 []"

definition tokenize :: "Language \<Rightarrow> string \<Rightarrow> fault + Token list" where
  "tokenize lang source_code =
     (case lang of
        LANG_PYTHON \<Rightarrow> tokenize_python source_code
      | LANG_TYPESCRIPT \<Rightarrow> tokenize_typescript source_code)"

subsection \<open>Error detection\<close>

text \<open>
  Each detector appends to the array \<open>errors\<close> at index \<open>*err_count\<close>; an iteration of
  its loop over the tokens writes at most one error. The body of the loop is modelled
  as a function to the error of that iteration, if any, and \<open>emit_errors\<close> writes them
  in order. \<open>snprintf\<close> cuts a message at \<open>MAX_LENGTH - 1\<close> bytes.
\<close>

fun emit_errors :: "Error option list \<Rightarrow> Error list \<Rightarrow> fault + Error list" where
  "emit_errors [] errors = Inr errors"
| "emit_errors (None # es) errors = emit_errors es errors"
| "emit_errors (Some e # es) errors =
     (if MAX_ERRORS \<le> length errors then Inl Errors_Full else emit_errors es (errors @ [e]))"

definition snprintf :: "string \<Rightarrow> string" where
  "snprintf text = take (MAX_LENGTH - 1) text"

definition quoted :: "string \<Rightarrow> string" where
  "quoted s = [squote] @ s @ [squote]"

subsubsection \<open>Misspelled keywords\<close>

text \<open>The loop over the keywords, left by \<open>break\<close> at the first keyword in range.\<close>

fun keyword_loop :: "string \<Rightarrow> string list \<Rightarrow> string option" where
  "keyword_loop v [] = None"
| "keyword_loop v (kw # kws) =
     (let edit_distance = levenshtein_distance v kw
      in if edit_distance > 0 \<and> edit_distance \<le> 2 then Some kw else keyword_loop v kws)"

definition misspelled_error :: "Token \<Rightarrow> string \<Rightarrow> Error" where
  "misspelled_error t kw =
     \<lparr>message = snprintf (''Misspelled keyword - '' @ quoted (tok_value t)
                  @ '' (did you mean '' @ quoted kw @ ''?)''),
      line_number = tok_line t,
      error_type = ERROR_TYPE_MISSPELLED_KEYWORD\<rparr>"

definition misspelled_keyword_at :: "string list \<Rightarrow> Token \<Rightarrow> Error option" where
  "misspelled_keyword_at keywords t =
     (if tok_type t \<noteq> IDENTIFIER \<or> length (tok_value t) \<le> 2 then None
      else (case keyword_loop (tok_value t) keywords of
              None \<Rightarrow> None
            | Some kw \<Rightarrow> Some (misspelled_error t kw)))"

definition check_misspelled_keyword_python :: "Token list \<Rightarrow> Error list \<Rightarrow> fault + Error list" where
  "check_misspelled_keyword_python tokens errors =
     emit_errors (map (misspelled_keyword_at PYTHON_KEYWORDS) tokens) errors"

definition check_misspelled_keyword_typescript :: "Token list \<Rightarrow> Error list \<Rightarrow> fault + Error list" where
  "check_misspelled_keyword_typescript tokens errors =
     emit_errors (map (misspelled_keyword_at TYPESCRIPT_KEYWORDS) tokens) errors"

subsubsection \<open>Type mismatch\<close>

definition type_mismatch_python_at :: "Token list \<Rightarrow> nat \<Rightarrow> Error option" where
  "type_mismatch_python_at tokens i =
     (if tok_type (tokens ! i) \<noteq> IDENTIFIER then None
      else if tok_value (tokens ! (i + 1)) \<noteq> '':'' then None
      else if tok_type (tokens ! (i + 2)) \<noteq> KEYWORD then None
      else if tok_value (tokens ! (i + 3)) \<noteq> ''='' then None
      else
        (let declared_type = tok_value (tokens ! (i + 2));
             value_type = tok_type (tokens ! (i + 4))
         in if declared_type = ''int'' \<and> value_type = FLOAT_LITERAL then
              Some \<lparr>message = snprintf (''Type mismatch - '' @ quoted (tok_value (tokens ! i))
                       @ '' declared as int but assigned float value ''
                       @ tok_value (tokens ! (i + 4))),
                    line_number = tok_line (tokens ! i),
                    error_type = ERROR_TYPE_TYPE_MISMATCH\<rparr>
            else if (declared_type = ''int'' \<or> declared_type = ''float'')
                    \<and> value_type = STRING_LITERAL then
              Some \<lparr>message = snprintf (''Type mismatch - '' @ quoted (tok_value (tokens ! i))
                       @ '' declared as '' @ declared_type @ '' but assigned string value''),
                    line_number = tok_line (tokens ! i),
                    error_type = ERROR_TYPE_TYPE_MISMATCH\<rparr>
            else if declared_type = ''str''
                    \<and> (value_type = INT_LITERAL \<or> value_type = FLOAT_LITERAL) then
              Some \<lparr>message = snprintf (''Type mismatch - '' @ quoted (tok_value (tokens ! i))
                       @ '' declared as str but assigned numeric value ''
                       @ tok_value (tokens ! (i + 4))),
                    line_number = tok_line (tokens ! i),
                    error_type = ERROR_TYPE_TYPE_MISMATCH\<rparr>
            else None))"

text \<open>The loop runs while \<open>i < count - 4\<close>, so every index read is below \<open>count\<close>.\<close>

definition check_type_mismatch_python :: "Token list \<Rightarrow> Error list \<Rightarrow> fault + Error list" where
  "check_type_mismatch_python tokens errors =
     emit_errors (map (type_mismatch_python_at tokens) [0..<length tokens - 4]) errors"

definition is_declaration :: "Token \<Rightarrow> bool" where
  "is_declaration t =
     (tok_value t = ''let'' \<or> tok_value t = ''const'' \<or> tok_value t = ''var'')"

definition boolean_mismatch_error :: "Token list \<Rightarrow> nat \<Rightarrow> Error" where
  "boolean_mismatch_error tokens i =
     \<lparr>message = snprintf (''Type mismatch - '' @ quoted (tok_value (tokens ! (i + 1)))
                  @ '' declared as boolean but assigned non-boolean value''),
      line_number = tok_line (tokens ! i),
      error_type = ERROR_TYPE_TYPE_MISMATCH\<rparr>"

definition type_mismatch_typescript_at :: "Token list \<Rightarrow> nat \<Rightarrow> Error option" where
  "type_mismatch_typescript_at tokens i =
     (if \<not> is_declaration (tokens ! i) then None
      else if tok_type (tokens ! (i + 1)) \<noteq> IDENTIFIER then None
      else if tok_value (tokens ! (i + 2)) \<noteq> '':'' then None
      else if tok_value (tokens ! (i + 4)) \<noteq> ''='' then None
      else
        (let declared_type = tok_value (tokens ! (i + 3));
             value_type = tok_type (tokens ! (i + 5))
         in if declared_type = ''number'' \<and> value_type = STRING_LITERAL then
              Some \<lparr>message = snprintf (''Type mismatch - '' @ quoted (tok_value (tokens ! (i + 1)))
                       @ '' declared as number but assigned string value''),
                    line_number = tok_line (tokens ! i),
                    error_type = ERROR_TYPE_TYPE_MISMATCH\<rparr>
            else if declared_type = ''string''
                    \<and> (value_type = INT_LITERAL \<or> value_type = FLOAT_LITERAL) then
              Some \<lparr>message = snprintf (''Type mismatch - '' @ quoted (tok_value (tokens ! (i + 1)))
                       @ '' declared as string but assigned numeric value ''
                       @ tok_value (tokens ! (i + 5))),
                    line_number = tok_line (tokens ! i),
                    error_type = ERROR_TYPE_TYPE_MISMATCH\<rparr>
            else if declared_type = ''boolean''
                    \<and> tok_value (tokens ! (i + 5)) \<noteq> ''true''
                    \<and> tok_value (tokens ! (i + 5)) \<noteq> ''false'' then
              Some (boolean_mismatch_error tokens i)
            else None))"

definition check_type_mismatch_typescript :: "Token list \<Rightarrow> Error list \<Rightarrow> fault + Error list" where
  "check_type_mismatch_typescript tokens errors =
     emit_errors (map (type_mismatch_typescript_at tokens) [0..<length tokens - 5]) errors"

subsubsection \<open>Undeclared identifiers\<close>

text \<open>The symbol table \<open>symbol_table[MAX_SYMBOLS]\<close> is the list of its first
  \<open>symbol_count\<close> names. A name is stored when it is not yet in the table and
  \<open>symbol_count < MAX_SYMBOLS\<close>.\<close>

definition add_symbol :: "string list \<Rightarrow> string \<Rightarrow> string list" where
  "add_symbol symbol_table name =
     (if name \<in> set symbol_table then symbol_table
      else if length symbol_table < MAX_SYMBOLS then symbol_table @ [name]
      else symbol_table)"

definition add_identifier :: "Token \<Rightarrow> string list \<Rightarrow> string list" where
  "add_identifier t symbol_table =
     (if tok_type t = IDENTIFIER then add_symbol symbol_table (tok_value t) else symbol_table)"

definition undeclared_error :: "Token \<Rightarrow> Error" where
  "undeclared_error t =
     \<lparr>message = snprintf (''Undeclared identifier - '' @ quoted (tok_value t)
                  @ '' used but never declared''),
      line_number = tok_line t,
      error_type = ERROR_TYPE_UNDECLARED_IDENTIFIER\<rparr>"

text \<open>Pass 1 of the Python detector at index \<open>i\<close>, for \<open>i < count - 1\<close>.\<close>

definition declare_python_at :: "Token list \<Rightarrow> nat \<Rightarrow> string list \<Rightarrow> string list" where
  "declare_python_at tokens i symbol_table =
     (let table1 =
            (if tok_type (tokens ! i) = IDENTIFIER
                \<and> tok_value (tokens ! (i + 1)) = ''=''
                \<and> tok_value (tokens ! (i + 1)) \<noteq> ''==''
             then add_symbol symbol_table (tok_value (tokens ! i))
             else symbol_table)
      in if tok_value (tokens ! i) = ''def'' \<or> tok_value (tokens ! i) = ''for''
         then fold add_identifier
                (takeWhile (\<lambda>t. tok_value t \<noteq> '':'') (drop (i + 1) tokens)) table1
         else table1)"

definition collect_declarations_python :: "Token list \<Rightarrow> string list" where
  "collect_declarations_python tokens =
     fold (declare_python_at tokens) [0..<length tokens - 1] []"

definition python_builtin :: "string \<Rightarrow> bool" where
  "python_builtin v =
     (v = ''print'' \<or> v = ''len'' \<or> v = ''range'' \<or> v = ''input'' \<or> v = ''open'' \<or> v = ''type'')"

definition undeclared_python_at :: "Token list \<Rightarrow> string list \<Rightarrow> nat \<Rightarrow> Error option" where
  "undeclared_python_at tokens symbol_table i =
     (if tok_type (tokens ! i) \<noteq> IDENTIFIER \<or> is_python_keyword (tok_value (tokens ! i)) then None
      else if i + 1 < length tokens \<and> tok_value (tokens ! (i + 1)) = ''='' then None
      else if python_builtin (tok_value (tokens ! i)) then None
      else if tok_value (tokens ! i) \<in> set symbol_table then None
      else Some (undeclared_error (tokens ! i)))"

definition check_undeclared_identifier_python :: "Token list \<Rightarrow> Error list \<Rightarrow> fault + Error list" where
  "check_undeclared_identifier_python tokens errors =
     emit_errors
       (map (undeclared_python_at tokens (collect_declarations_python tokens)) [0..<length tokens])
       errors"

text \<open>Pass 1 of the TypeScript detector at index \<open>i\<close>. The loop over the parameters of a
  function runs over the indices \<open>j\<close> from \<open>i + 1\<close> up to the first \<open>)\<close> or the end.\<close>

definition declare_parameter :: "Token list \<Rightarrow> nat \<Rightarrow> nat \<Rightarrow> string list \<Rightarrow> string list" where
  "declare_parameter tokens i j symbol_table =
     (if tok_type (tokens ! j) = IDENTIFIER
         \<and> (j = i + 1 \<or> tok_value (tokens ! (j - 1)) = ''('' \<or> tok_value (tokens ! (j - 1)) = '','')
      then add_symbol symbol_table (tok_value (tokens ! j))
      else symbol_table)"

definition declare_typescript_at :: "Token list \<Rightarrow> nat \<Rightarrow> string list \<Rightarrow> string list" where
  "declare_typescript_at tokens i symbol_table =
     (let table1 =
            (if is_declaration (tokens ! i) \<and> tok_type (tokens ! (i + 1)) = IDENTIFIER
             then add_symbol symbol_table (tok_value (tokens ! (i + 1)))
             else symbol_table)
      in if tok_value (tokens ! i) = ''function''
         then fold (declare_parameter tokens i)
                [i + 1 ..< i + 1 + length (takeWhile (\<lambda>t. tok_value t \<noteq> '')'') (drop (i + 1) tokens))]
                table1
         else table1)"

definition collect_declarations_typescript :: "Token list \<Rightarrow> string list" where
  "collect_declarations_typescript tokens =
     fold (declare_typescript_at tokens) [0..<length tokens - 1] []"

definition typescript_global :: "string \<Rightarrow> bool" where
  "typescript_global v =
     (v = ''console'' \<or> v = ''log'' \<or> v = ''document'' \<or> v = ''window'' \<or> v = ''Math'' \<or> v = ''Array'')"

definition undeclared_typescript_at :: "Token list \<Rightarrow> string list \<Rightarrow> nat \<Rightarrow> Error option" where
  "undeclared_typescript_at tokens symbol_table i =
     (if tok_type (tokens ! i) \<noteq> IDENTIFIER \<or> is_typescript_keyword (tok_value (tokens ! i)) then None
      else if i > 0 \<and> (is_declaration (tokens ! (i - 1)) \<or> tok_value (tokens ! (i - 1)) = ''function'')
      then None
      else if typescript_global (tok_value (tokens ! i)) then None
      else if tok_value (tokens ! i) \<in> set symbol_table then None
      else Some (undeclared_error (tokens ! i)))"

definition check_undeclared_identifier_typescript :: "Token list \<Rightarrow> Error list \<Rightarrow> fault + Error list" where
  "check_undeclared_identifier_typescript tokens errors =
     emit_errors
       (map (undeclared_typescript_at tokens (collect_declarations_typescript tokens)) [0..<length tokens])
       errors"

subsubsection \<open>Invalid operators\<close>

definition invalid_operator_error :: "Token \<Rightarrow> string \<Rightarrow> Error" where
  "invalid_operator_error t text =
     \<lparr>message = snprintf text, line_number = tok_line t, error_type = ERROR_TYPE_INVALID_OPERATOR\<rparr>"

definition invalid_operator_python_at :: "Token \<Rightarrow> Error option" where
  "invalid_operator_python_at t =
     (if tok_type t \<noteq> OPERATOR then None
      else if tok_value t = ''==='' then
        Some (invalid_operator_error t
               (''Invalid operator - '' @ quoted ''==='' @ '' is not valid in Python, use ''
                @ quoted ''=='' @ '' instead''))
      else if tok_value t = ''!=='' then
        Some (invalid_operator_error t
               (''Invalid operator - '' @ quoted ''!=='' @ '' is not valid in Python, use ''
                @ quoted ''!='' @ '' instead''))
      else if tok_value t = ''=<'' then
        Some (invalid_operator_error t
               (''Invalid operator - '' @ quoted ''=<'' @ '' should be '' @ quoted ''<=''))
      else if tok_value t = ''=>'' then
        Some (invalid_operator_error t
               (''Invalid operator - '' @ quoted ''=>'' @ '' is not valid in Python, use ''
                @ quoted ''>='' @ '' for comparison''))
      else None)"

definition check_invalid_operator_python :: "Token list \<Rightarrow> Error list \<Rightarrow> fault + Error list" where
  "check_invalid_operator_python tokens errors =
     emit_errors (map invalid_operator_python_at tokens) errors"

definition invalid_operator_typescript_at :: "Token \<Rightarrow> Error option" where
  "invalid_operator_typescript_at t =
     (if tok_type t \<noteq> OPERATOR then None
      else if tok_value t = ''=<'' then
        Some (invalid_operator_error t
               (''Invalid operator - '' @ quoted ''=<'' @ '' should be '' @ quoted ''<=''))
      else None)"

definition check_invalid_operator_typescript :: "Token list \<Rightarrow> Error list \<Rightarrow> fault + Error list" where
  "check_invalid_operator_typescript tokens errors =
     emit_errors (map invalid_operator_typescript_at tokens) errors"

subsection \<open>The analysis of one source text (\<open>main\<close>, without input and output)\<close>

definition then_check ::
  "fault + Error list \<Rightarrow> (Error list \<Rightarrow> fault + Error list) \<Rightarrow> fault + Error list" where
  "then_check r check = (case r of Inl f \<Rightarrow> Inl f | Inr errors \<Rightarrow> check errors)"

definition detect_errors :: "Language \<Rightarrow> Token list \<Rightarrow> fault + Error list" where
  "detect_errors lang tokens =
     (case lang of
        LANG_PYTHON \<Rightarrow>
          then_check (then_check (then_check
            (check_misspelled_keyword_python tokens [])
            (check_type_mismatch_python tokens))
            (check_undeclared_identifier_python tokens))
            (check_invalid_operator_python tokens)
      | LANG_TYPESCRIPT \<Rightarrow>
          then_check (then_check (then_check
            (check_misspelled_keyword_typescript tokens [])
            (check_type_mismatch_typescript tokens))
            (check_undeclared_identifier_typescript tokens))
            (check_invalid_operator_typescript tokens))"

definition analyze :: "Language \<Rightarrow> string \<Rightarrow> fault + (Token list \<times> Comment list \<times> Error list)" where
  "analyze lang source_code =
     (case extract_comments lang source_code of
        Inl f \<Rightarrow> Inl f
      | Inr (comments, code_without_comments) \<Rightarrow>
          (case tokenize lang code_without_comments of
             Inl f \<Rightarrow> Inl f
           | Inr tokens \<Rightarrow>
               (case detect_errors lang tokens of
                  Inl f \<Rightarrow> Inl f
                | Inr errors \<Rightarrow> Inr (tokens, comments, errors))))"

subsection \<open>Notions used to state the properties\<close>

text \<open>\<open>interleaved src clean cs\<close>: the text \<open>src\<close> is made of the bytes of \<open>clean\<close> and of
  the spans \<open>cs\<close>, each span in one piece, all in their order.\<close>

inductive interleaved :: "string \<Rightarrow> string \<Rightarrow> string list \<Rightarrow> bool" where
  finished: "interleaved [] [] []"
| code_byte: "interleaved src clean cs \<Longrightarrow> interleaved (c # src) (c # clean) cs"
| comment_span: "interleaved src clean cs \<Longrightarrow> interleaved (k @ src) clean (k # cs)"




text \<open>
  The distance of the description: the Levenshtein recurrence over the prefixes of the
  two texts (a deletion, an insertion or a substitution costs 1), where two characters
  match when they are equal after \<open>tolower\<close>.
\<close>

definition case_insensitive_distance :: "string \<Rightarrow> string \<Rightarrow> int" where
  "case_insensitive_distance a b = lev_rec a b (length a) (length b)"

text \<open>The misspelling detector in the words of its description: the first keyword, in
  the order of the list, at a distance \<open>d\<close> with \<open>0 < d \<le> 2\<close>, for an identifier longer
  than 2.\<close>

definition suggestion :: "string list \<Rightarrow> Token \<Rightarrow> string option" where
  "suggestion keywords t =
     (if tok_type t = IDENTIFIER \<and> 2 < length (tok_value t)
      then List.find (\<lambda>kw. 0 < case_insensitive_distance (tok_value t) kw
                          \<and> case_insensitive_distance (tok_value t) kw \<le> 2) keywords
      else None)"

definition Tok :: "string \<Rightarrow> token_type \<Rightarrow> nat \<Rightarrow> Token" where
  "Tok v ty l = \<lparr>tok_value = v, tok_type = ty, tok_line = l\<rparr>"

text \<open>The invariant of the token array while the line counter is \<open>line\<close>.\<close>

definition tokens_ok :: "nat \<Rightarrow> Token list \<Rightarrow> bool" where
  "tokens_ok line tokens =
     (1 \<le> line
      \<and> list_all (\<lambda>t. tok_value t \<noteq> [] \<and> 1 \<le> tok_line t \<and> tok_line t \<le> line) tokens
      \<and> sorted (map tok_line tokens))"

text \<open>The recurrence computed row by row, to evaluate distances of given strings.\<close>

fun lev_row_next :: "string \<Rightarrow> string \<Rightarrow> nat \<Rightarrow> nat \<Rightarrow> int \<Rightarrow> int list \<Rightarrow> int list" where
  "lev_row_next a b i j left (p0 # p1 # ps) =
     (let v = min_of_three (p1 + 1) (left + 1) (p0 + subst_cost a b (Suc i) (Suc j))
      in v # lev_row_next a b i (Suc j) v (p1 # ps))"
| "lev_row_next a b i j left ps = []"

definition lev_rows :: "string \<Rightarrow> string \<Rightarrow> nat \<Rightarrow> int list" where
  "lev_rows a b n =
     fold (\<lambda>i row. int (Suc i) # lev_row_next a b i 0 (int (Suc i)) row) [0..<n]
       (map int [0..<Suc (length b)])"

text \<open>The errors of the iterations of a loop, in order.\<close>

fun emitted :: "Error option list \<Rightarrow> Error list" where
  "emitted [] = []"
| "emitted (None # es) = emitted es"
| "emitted (Some e # es) = e # emitted es"

definition keywords_of :: "Language \<Rightarrow> string list" where
  "keywords_of lang = (case lang of LANG_PYTHON \<Rightarrow> PYTHON_KEYWORDS | LANG_TYPESCRIPT \<Rightarrow> TYPESCRIPT_KEYWORDS)"

definition check_misspelled_keyword :: "Language \<Rightarrow> Token list \<Rightarrow> Error list \<Rightarrow> fault + Error list" where
  "check_misspelled_keyword lang tokens errors =
     (case lang of
        LANG_PYTHON \<Rightarrow> check_misspelled_keyword_python tokens errors
      | LANG_TYPESCRIPT \<Rightarrow> check_misspelled_keyword_typescript tokens errors)"







text \<open>The characters that can start a comment in one of the two languages.\<close>

definition comment_mark :: "char \<Rightarrow> bool" where
  "comment_mark c = (c = CHR ''#'' \<or> c = squote \<or> c = dquote \<or> c = CHR ''/'')"

section \<open>Properties\<close>

subsection \<open>The Levenshtein matrix tabulates the recurrence\<close>

lemma min_of_three_min: "min_of_three a b c = min a (min b c)"
  by (simp add: min_of_three_def Let_def min_def)

lemma matrix_set_apply:
  "matrix_set m i j v i' j' = (if i' = i \<and> j' = j then v else m i' j')"
  by (simp add: matrix_set_def)

lemma init_col:
  "fold (\<lambda>i m. matrix_set m i 0 (int i)) [0..<n] m0 i' j' =
     (if i' < n \<and> j' = 0 then int i' else m0 i' j')"
  by (induction n) (auto simp: matrix_set_apply)

lemma init_row:
  "fold (\<lambda>j m. matrix_set m 0 j (int j)) [0..<n] m0 i' j' =
     (if i' = 0 \<and> j' < n then int j' else m0 i' j')"
  by (induction n) (auto simp: matrix_set_apply)

lemma inner_loop:
  assumes "\<forall>j'\<le>N. m (i - 1) j' = lev_rec a b (i - 1) j'" "m i 0 = lev_rec a b i 0" "0 < i"
  shows "n \<le> N \<Longrightarrow> fold (\<lambda>j m. lev_cell a b i j m) [1..<Suc n] m i' j' =
           (if i' = i \<and> 1 \<le> j' \<and> j' \<le> n then lev_rec a b i j' else m i' j')"
proof (induction n arbitrary: i' j')
  case 0
  then show ?case by simp
next
  case (Suc n)
  obtain k where k: "i = Suc k" using \<open>0 < i\<close> by (cases i) auto
  define M where "M = fold (\<lambda>j m. lev_cell a b i j m) [1..<Suc n] m"
  have IH: "\<And>i' j'. M i' j' =
      (if i' = i \<and> 1 \<le> j' \<and> j' \<le> n then lev_rec a b i j' else m i' j')"
    unfolding M_def using Suc.prems by (intro Suc.IH) simp
  have step: "fold (\<lambda>j m. lev_cell a b i j m) [1..<Suc (Suc n)] m = lev_cell a b i (Suc n) M"
    unfolding M_def by simp
  have up: "M k (Suc n) = lev_rec a b k (Suc n)" "M k n = lev_rec a b k n"
    using IH assms(1) k Suc.prems by simp_all
  have left: "M (Suc k) n = lev_rec a b (Suc k) n"
    using IH[of "Suc k" n] assms(2) k by (cases "n = 0") auto
  have cell: "lev_cell a b i (Suc n) M i' j' =
      (if i' = i \<and> j' = Suc n then lev_rec a b i (Suc n) else M i' j')"
    using up left by (simp add: lev_cell_def matrix_set_apply k)
  show ?case
    unfolding step cell IH by auto
qed

lemma outer_loop:
  assumes "\<forall>i'\<le>N. m i' 0 = lev_rec a b i' 0" "\<forall>j'\<le>len2. m 0 j' = lev_rec a b 0 j'"
  shows "n \<le> N \<Longrightarrow>
         fold (\<lambda>i m. fold (\<lambda>j m. lev_cell a b i j m) [1..<Suc len2] m) [1..<Suc n] m i' j' =
           (if 1 \<le> i' \<and> i' \<le> n \<and> 1 \<le> j' \<and> j' \<le> len2 then lev_rec a b i' j' else m i' j')"
proof (induction n arbitrary: i' j')
  case 0
  then show ?case by simp
next
  case (Suc n)
  define M where "M = fold (\<lambda>i m. fold (\<lambda>j m. lev_cell a b i j m) [1..<Suc len2] m) [1..<Suc n] m"
  have IH: "\<And>i' j'. M i' j' =
      (if 1 \<le> i' \<and> i' \<le> n \<and> 1 \<le> j' \<and> j' \<le> len2 then lev_rec a b i' j' else m i' j')"
    unfolding M_def using Suc.prems by (intro Suc.IH) simp
  have step: "fold (\<lambda>i m. fold (\<lambda>j m. lev_cell a b i j m) [1..<Suc len2] m) [1..<Suc (Suc n)] m
      = fold (\<lambda>j m. lev_cell a b (Suc n) j m) [1..<Suc len2] M"
    unfolding M_def by simp
  have prev: "\<forall>j'\<le>len2. M (Suc n - 1) j' = lev_rec a b (Suc n - 1) j'"
  proof (intro allI impI)
    fix j' assume "j' \<le> len2"
    then show "M (Suc n - 1) j' = lev_rec a b (Suc n - 1) j'"
      using IH[of n j'] assms Suc.prems by (cases "n = 0"; cases "j' = 0") auto
  qed
  have col: "M (Suc n) 0 = lev_rec a b (Suc n) 0"
    using IH[of "Suc n" 0] assms(1) Suc.prems by simp
  have row: "fold (\<lambda>j m. lev_cell a b (Suc n) j m) [1..<Suc len2] M i' j' =
      (if i' = Suc n \<and> 1 \<le> j' \<and> j' \<le> len2 then lev_rec a b (Suc n) j' else M i' j')"
    by (rule inner_loop[OF prev col]) simp_all
  show ?case
    unfolding step row by (auto simp: IH)
qed

lemma lev_fill_eq:
  assumes "i \<le> length a" "j \<le> length b"
  shows "lev_fill a b m0 i j = lev_rec a b i j"
proof -
  define m where "m = fold (\<lambda>j m. matrix_set m 0 j (int j)) [0..<Suc (length b)]
     (fold (\<lambda>i m. matrix_set m i 0 (int i)) [0..<Suc (length a)] m0)"
  have m: "\<And>i' j'. m i' j' = (if i' = 0 \<and> j' < Suc (length b) then int j'
      else if i' < Suc (length a) \<and> j' = 0 then int i' else m0 i' j')"
    unfolding m_def init_row init_col by simp
  have c0: "\<forall>i'\<le>length a. m i' 0 = lev_rec a b i' 0"
    using m by (auto simp: gr0_conv_Suc)
  have r0: "\<forall>j'\<le>length b. m 0 j' = lev_rec a b 0 j'"
    using m by auto
  have fill: "lev_fill a b m0 =
      fold (\<lambda>i m. fold (\<lambda>j m. lev_cell a b i j m) [1..<Suc (length b)] m) [1..<Suc (length a)] m"
    unfolding lev_fill_def m_def Let_def ..
  show ?thesis
    unfolding fill outer_loop[OF c0 r0 order_refl]
    using assms c0 r0 by (cases "i = 0"; cases "j = 0") auto
qed

lemma levenshtein_distance_rec:
  "levenshtein_distance_from m0 a b = lev_rec a b (length a) (length b)"
  by (simp add: levenshtein_distance_from_def lev_fill_eq)

lemma subst_cost_sym: "subst_cost a b i j = subst_cost b a j i"
  by (auto simp: subst_cost_def)

lemma lev_rec_sym: "lev_rec a b i j = lev_rec b a j i"
proof (induction a b i j rule: lev_rec.induct)
  case (1 a b j)
  then show ?case by (cases j) simp_all
next
  case (2 a b i)
  then show ?case by simp
next
  case (3 a b i j)
  then show ?case
    by (simp add: min_of_three_min subst_cost_sym[of a b] min.commute min.left_commute)
qed

lemma lev_rec_nonneg: "0 \<le> lev_rec a b i j"
  by (induction a b i j rule: lev_rec.induct) (auto simp: min_of_three_min subst_cost_def)

lemma lev_rec_diag: "lev_rec a a i i = 0"
proof (induction i)
  case 0
  then show ?case by simp
next
  case (Suc i)
  have "0 \<le> lev_rec a a i (Suc i)" "0 \<le> lev_rec a a (Suc i) i"
    by (rule lev_rec_nonneg)+
  with Suc show ?case
    by (simp add: min_of_three_min subst_cost_def)
qed

lemma lev_row_next_rec:
  "j \<le> n \<Longrightarrow>
   lev_row_next a b i j (lev_rec a b (Suc i) j) (map (lev_rec a b i) [j..<Suc n]) =
   map (lev_rec a b (Suc i)) [Suc j..<Suc n]"
proof (induction "n - j" arbitrary: j)
  case 0
  then have "j = n" by simp
  then show ?case by simp
next
  case (Suc d)
  then have lt: "j < n" and d: "d = n - Suc j" by simp_all
  have l: "[j..<Suc n] = j # Suc j # [Suc (Suc j)..<Suc n]"
    using lt by (simp add: upt_conv_Cons)
  have r: "[Suc j..<Suc n] = Suc j # [Suc (Suc j)..<Suc n]"
    using lt by (simp add: upt_conv_Cons)
  have tl: "map (lev_rec a b i) [Suc j..<Suc n] =
      lev_rec a b i (Suc j) # map (lev_rec a b i) [Suc (Suc j)..<Suc n]"
    by (simp only: r list.map)
  have IH: "lev_row_next a b i (Suc j) (lev_rec a b (Suc i) (Suc j)) (map (lev_rec a b i) [Suc j..<Suc n])
      = map (lev_rec a b (Suc i)) [Suc (Suc j)..<Suc n]"
    using Suc.hyps(1)[OF d] lt by simp
  show ?case
    unfolding l r using IH unfolding tl by (simp add: Let_def)
qed

lemma lev_rows_rec: "lev_rows a b n = map (lev_rec a b n) [0..<Suc (length b)]"
proof (induction n)
  case 0
  then show ?case by (simp add: lev_rows_def)
next
  case (Suc n)
  have "lev_rows a b (Suc n) =
      int (Suc n) # lev_row_next a b n 0 (int (Suc n)) (lev_rows a b n)"
    by (simp add: lev_rows_def)
  also have "\<dots> = lev_rec a b (Suc n) 0 # map (lev_rec a b (Suc n)) [Suc 0..<Suc (length b)]"
    unfolding Suc.IH using lev_row_next_rec[of 0 "length b" a b n] by simp
  also have "\<dots> = map (lev_rec a b (Suc n)) [0..<Suc (length b)]"
    by (simp add: upt_conv_Cons del: upt_Suc)
  finally show ?case .
qed

lemma levenshtein_distance_rows [code]:
  "levenshtein_distance a b = last (lev_rows a b (length a))"
  by (simp add: levenshtein_distance_def levenshtein_distance_rec lev_rows_rec last_map del: upt_Suc)

lemma levenshtein_distance_recurrence:
  "levenshtein_distance a b = case_insensitive_distance a b"
  by (simp add: levenshtein_distance_def levenshtein_distance_rec case_insensitive_distance_def)

lemma case_insensitive_distance_rows [code]:
  "case_insensitive_distance a b = last (lev_rows a b (length a))"
  using levenshtein_distance_rows[of a b] by (simp add: levenshtein_distance_recurrence)

lemma tolower_idem: "tolower (tolower c) = tolower c"
  by (auto simp: tolower_def split: option.splits if_splits)

lemma lev_rec_lowercase:
  "i \<le> length a \<Longrightarrow> j \<le> length b \<Longrightarrow>
   lev_rec (map tolower a) (map tolower b) i j = lev_rec a b i j"
proof (induction a b i j rule: lev_rec.induct)
  case (3 a b i j)
  then have "subst_cost (map tolower a) (map tolower b) (Suc i) (Suc j) = subst_cost a b (Suc i) (Suc j)"
    by (simp add: subst_cost_def tolower_idem)
  with 3 show ?case by simp
qed simp_all

lemma case_insensitive_distance_lowercase:
  "case_insensitive_distance (map tolower a) (map tolower b) = case_insensitive_distance a b"
  using lev_rec_lowercase[of "length a" a "length b" b]
  by (simp add: case_insensitive_distance_def)

text \<open>
  Claim C8. For all strings \<open>a\<close> and \<open>b\<close> the distance computed by
  \<open>levenshtein_distance\<close> is symmetric, and the distance of a string to itself is 0.
  This holds whatever the matrix contains before the function fills it.
\<close>

theorem levenshtein_distance_symmetric:
  "levenshtein_distance a b = levenshtein_distance b a
   \<and> levenshtein_distance a a = 0
   \<and> levenshtein_distance_from m0 a b = levenshtein_distance_from m1 b a
   \<and> levenshtein_distance_from m0 a a = 0"
  unfolding levenshtein_distance_def levenshtein_distance_rec
  using lev_rec_sym[of a b] lev_rec_diag by simp

subsection \<open>Comment extraction\<close>



lemma python_multiline_body_append:
  "python_multiline_body q src line = (body, src', line') \<Longrightarrow> body @ src' = src"
  by (induction q src line arbitrary: body src' line' rule: python_multiline_body.induct)
     (auto split: if_splits prod.splits)

lemma typescript_multiline_body_append:
  "typescript_multiline_body src line = (body, src', line') \<Longrightarrow> body @ src' = src"
  by (induction src line arbitrary: body src' line' rule: typescript_multiline_body.induct)
     (auto split: if_splits prod.splits)

lemma python_loop_interleaved:
  "extract_comments_python_loop src line cs clean = Inr (cs', clean') \<Longrightarrow>
   \<exists>cs2 clean2. cs' = cs @ cs2 \<and> clean' = clean @ clean2 \<and> interleaved src clean2 (map content cs2)"
proof (induction src line cs clean rule: extract_comments_python_loop.induct)
  case (1 line cs clean)
  then show ?case by (auto intro: interleaved.finished)
next
  case (2 c rest line cs clean)
  let ?src = "c # rest"
  note step = extract_comments_python_loop.simps(2)[of c rest line cs clean]
  note [simp del] = extract_comments_python_loop.simps takeWhile.simps dropWhile.simps
    take_Suc_Cons drop_Suc_Cons
  show ?case
  proof (cases "c = CHR ''#''")
    case True
    let ?k = "takeWhile not_newline ?src"
    let ?cm = "\<lparr>content = ?k, start_line = line, end_line = line, is_multiline = False\<rparr>"
    from "2.prems" True step have ok: "\<not> MAX_COMMENTS \<le> length cs" "\<not> MAX_LENGTH \<le> length ?k"
      and run: "extract_comments_python_loop (dropWhile not_newline ?src) line (cs @ [?cm]) clean
                = Inr (cs', clean')"
      by (auto split: if_splits)
    from "2.IH"(1)[OF True ok run] obtain cs2 clean2 where
      r: "cs' = (cs @ [?cm]) @ cs2" "clean' = clean @ clean2"
         "interleaved (dropWhile not_newline ?src) clean2 (map content cs2)"
      by blast
    have "interleaved (?k @ dropWhile not_newline ?src) clean2 (?k # map content cs2)"
      by (rule interleaved.comment_span[OF r(3)])
    then have "interleaved ?src clean2 (map content (?cm # cs2))"
      by (simp only: takeWhile_dropWhile_id list.map Comment.simps)
    with r(1,2) show ?thesis by (intro exI[of _ "?cm # cs2"] exI[of _ clean2]) simp
  next
    case False
    show ?thesis
    proof (cases "python_opener ?src")
      case True
      obtain body src' line' where
        b: "python_multiline_body c (drop 3 ?src) line = (body, src', line')"
        by (cases "python_multiline_body c (drop 3 ?src) line") auto
      let ?k = "take 3 ?src @ body"
      let ?cm = "\<lparr>content = ?k, start_line = line, end_line = line', is_multiline = True\<rparr>"
      from "2.prems" False True b step have ok: "\<not> MAX_COMMENTS \<le> length cs" "\<not> MAX_LENGTH \<le> length ?k"
        and run: "extract_comments_python_loop src' line' (cs @ [?cm]) clean = Inr (cs', clean')"
        by (auto split: if_splits)
      from "2.IH"(2)[OF False True ok(1) b[symmetric] refl ok(2) run] obtain cs2 clean2 where
        r: "cs' = (cs @ [?cm]) @ cs2" "clean' = clean @ clean2"
           "interleaved src' clean2 (map content cs2)"
        by blast
      have "?k @ src' = ?src"
        using python_multiline_body_append[OF b] append_take_drop_id[of 3 ?src] by (metis append.assoc)
      moreover have "interleaved (?k @ src') clean2 (?k # map content cs2)"
        by (rule interleaved.comment_span[OF r(3)])
      ultimately have "interleaved ?src clean2 (map content (?cm # cs2))"
        by simp
      with r(1,2) show ?thesis by (intro exI[of _ "?cm # cs2"] exI[of _ clean2]) simp
    next
      case no: False
      from "2.prems" False no step have
        run: "extract_comments_python_loop rest (if c = newline then line + 1 else line) cs (clean @ [c])
              = Inr (cs', clean')"
        by simp
      from "2.IH"(3)[OF False no run] obtain cs2 clean2 where
        r: "cs' = cs @ cs2" "clean' = (clean @ [c]) @ clean2"
           "interleaved rest clean2 (map content cs2)"
        by blast
      from interleaved.code_byte[OF r(3), of c] r(1,2)
      show ?thesis by (intro exI[of _ cs2] exI[of _ "c # clean2"]) simp
    qed
  qed
qed

lemma typescript_loop_interleaved:
  "extract_comments_typescript_loop src line cs clean = Inr (cs', clean') \<Longrightarrow>
   \<exists>cs2 clean2. cs' = cs @ cs2 \<and> clean' = clean @ clean2 \<and> interleaved src clean2 (map content cs2)"
proof (induction src line cs clean rule: extract_comments_typescript_loop.induct)
  case (1 line cs clean)
  then show ?case by (auto intro: interleaved.finished)
next
  case (2 c rest line cs clean)
  let ?src = "c # rest"
  note step = extract_comments_typescript_loop.simps(2)[of c rest line cs clean]
  note [simp del] = extract_comments_typescript_loop.simps takeWhile.simps dropWhile.simps
    take_Suc_Cons drop_Suc_Cons
  show ?case
  proof (cases "typescript_line_opener ?src")
    case True
    let ?k = "takeWhile not_newline ?src"
    let ?cm = "\<lparr>content = ?k, start_line = line, end_line = line, is_multiline = False\<rparr>"
    from "2.prems" True step have ok: "\<not> MAX_COMMENTS \<le> length cs" "\<not> MAX_LENGTH \<le> length ?k"
      and run: "extract_comments_typescript_loop (dropWhile not_newline ?src) line (cs @ [?cm]) clean
                = Inr (cs', clean')"
      by (auto split: if_splits)
    from "2.IH"(1)[OF True ok run] obtain cs2 clean2 where
      r: "cs' = (cs @ [?cm]) @ cs2" "clean' = clean @ clean2"
         "interleaved (dropWhile not_newline ?src) clean2 (map content cs2)"
      by blast
    have "interleaved (?k @ dropWhile not_newline ?src) clean2 (?k # map content cs2)"
      by (rule interleaved.comment_span[OF r(3)])
    then have "interleaved ?src clean2 (map content (?cm # cs2))"
      by (simp only: takeWhile_dropWhile_id list.map Comment.simps)
    with r(1,2) show ?thesis by (intro exI[of _ "?cm # cs2"] exI[of _ clean2]) simp
  next
    case False
    show ?thesis
    proof (cases "typescript_block_opener ?src")
      case True
      obtain body src' line' where
        b: "typescript_multiline_body (drop 2 ?src) line = (body, src', line')"
        by (cases "typescript_multiline_body (drop 2 ?src) line") auto
      let ?k = "take 2 ?src @ body"
      let ?cm = "\<lparr>content = ?k, start_line = line, end_line = line', is_multiline = True\<rparr>"
      from "2.prems" False True b step have ok: "\<not> MAX_COMMENTS \<le> length cs" "\<not> MAX_LENGTH \<le> length ?k"
        and run: "extract_comments_typescript_loop src' line' (cs @ [?cm]) clean = Inr (cs', clean')"
        by (auto split: if_splits)
      from "2.IH"(2)[OF False True ok(1) b[symmetric] refl ok(2) run] obtain cs2 clean2 where
        r: "cs' = (cs @ [?cm]) @ cs2" "clean' = clean @ clean2"
           "interleaved src' clean2 (map content cs2)"
        by blast
      have "?k @ src' = ?src"
        using typescript_multiline_body_append[OF b] append_take_drop_id[of 2 ?src] by (metis append.assoc)
      moreover have "interleaved (?k @ src') clean2 (?k # map content cs2)"
        by (rule interleaved.comment_span[OF r(3)])
      ultimately have "interleaved ?src clean2 (map content (?cm # cs2))"
        by simp
      with r(1,2) show ?thesis by (intro exI[of _ "?cm # cs2"] exI[of _ clean2]) simp
    next
      case no: False
      from "2.prems" False no step have
        run: "extract_comments_typescript_loop rest (if c = newline then line + 1 else line) cs (clean @ [c])
              = Inr (cs', clean')"
        by simp
      from "2.IH"(3)[OF False no run] obtain cs2 clean2 where
        r: "cs' = cs @ cs2" "clean' = (clean @ [c]) @ clean2"
           "interleaved rest clean2 (map content cs2)"
        by blast
      from interleaved.code_byte[OF r(3), of c] r(1,2)
      show ?thesis by (intro exI[of _ cs2] exI[of _ "c # clean2"]) simp
    qed
  qed
qed

lemma python_loop_bounds:
  "extract_comments_python_loop src line cs clean = Inr (cs', clean') \<Longrightarrow>
   length cs \<le> MAX_COMMENTS \<Longrightarrow> list_all (\<lambda>c. length (content c) < MAX_LENGTH) cs \<Longrightarrow>
   length cs' \<le> MAX_COMMENTS \<and> list_all (\<lambda>c. length (content c) < MAX_LENGTH) cs'"
proof (induction src line cs clean rule: extract_comments_python_loop.induct)
  case (1 line cs clean)
  then show ?case by auto
next
  case (2 c rest line cs clean)
  let ?src = "c # rest"
  note step = extract_comments_python_loop.simps(2)[of c rest line cs clean]
  note [simp del] = extract_comments_python_loop.simps takeWhile.simps dropWhile.simps
    take_Suc_Cons drop_Suc_Cons
  show ?case
  proof (cases "c = CHR ''#''")
    case True
    let ?k = "takeWhile not_newline ?src"
    let ?cm = "\<lparr>content = ?k, start_line = line, end_line = line, is_multiline = False\<rparr>"
    from "2.prems"(1) True step have ok: "\<not> MAX_COMMENTS \<le> length cs" "\<not> MAX_LENGTH \<le> length ?k"
      and run: "extract_comments_python_loop (dropWhile not_newline ?src) line (cs @ [?cm]) clean
                = Inr (cs', clean')"
      by (auto split: if_splits)
    have "length (cs @ [?cm]) \<le> MAX_COMMENTS"
      and "list_all (\<lambda>c. length (content c) < MAX_LENGTH) (cs @ [?cm])"
      using ok "2.prems"(3) by simp_all
    from "2.IH"(1)[OF True ok run this] show ?thesis .
  next
    case False
    show ?thesis
    proof (cases "python_opener ?src")
      case True
      obtain body src' line' where
        b: "python_multiline_body c (drop 3 ?src) line = (body, src', line')"
        by (cases "python_multiline_body c (drop 3 ?src) line") auto
      let ?k = "take 3 ?src @ body"
      let ?cm = "\<lparr>content = ?k, start_line = line, end_line = line', is_multiline = True\<rparr>"
      from "2.prems"(1) False True b step have ok: "\<not> MAX_COMMENTS \<le> length cs" "\<not> MAX_LENGTH \<le> length ?k"
        and run: "extract_comments_python_loop src' line' (cs @ [?cm]) clean = Inr (cs', clean')"
        by (auto split: if_splits)
      have "length (cs @ [?cm]) \<le> MAX_COMMENTS"
        and "list_all (\<lambda>c. length (content c) < MAX_LENGTH) (cs @ [?cm])"
        using ok "2.prems"(3) by simp_all
      from "2.IH"(2)[OF False True ok(1) b[symmetric] refl ok(2) run this] show ?thesis .
    next
      case no: False
      from "2.prems"(1) False no step have
        run: "extract_comments_python_loop rest (if c = newline then line + 1 else line) cs (clean @ [c])
              = Inr (cs', clean')"
        by simp
      from "2.IH"(3)[OF False no run "2.prems"(2,3)] show ?thesis .
    qed
  qed
qed

lemma typescript_loop_bounds:
  "extract_comments_typescript_loop src line cs clean = Inr (cs', clean') \<Longrightarrow>
   length cs \<le> MAX_COMMENTS \<Longrightarrow> list_all (\<lambda>c. length (content c) < MAX_LENGTH) cs \<Longrightarrow>
   length cs' \<le> MAX_COMMENTS \<and> list_all (\<lambda>c. length (content c) < MAX_LENGTH) cs'"
proof (induction src line cs clean rule: extract_comments_typescript_loop.induct)
  case (1 line cs clean)
  then show ?case by auto
next
  case (2 c rest line cs clean)
  let ?src = "c # rest"
  note step = extract_comments_typescript_loop.simps(2)[of c rest line cs clean]
  note [simp del] = extract_comments_typescript_loop.simps takeWhile.simps dropWhile.simps
    take_Suc_Cons drop_Suc_Cons
  show ?case
  proof (cases "typescript_line_opener ?src")
    case True
    let ?k = "takeWhile not_newline ?src"
    let ?cm = "\<lparr>content = ?k, start_line = line, end_line = line, is_multiline = False\<rparr>"
    from "2.prems"(1) True step have ok: "\<not> MAX_COMMENTS \<le> length cs" "\<not> MAX_LENGTH \<le> length ?k"
      and run: "extract_comments_typescript_loop (dropWhile not_newline ?src) line (cs @ [?cm]) clean
                = Inr (cs', clean')"
      by (auto split: if_splits)
    have "length (cs @ [?cm]) \<le> MAX_COMMENTS"
      and "list_all (\<lambda>c. length (content c) < MAX_LENGTH) (cs @ [?cm])"
      using ok "2.prems"(3) by simp_all
    from "2.IH"(1)[OF True ok run this] show ?thesis .
  next
    case False
    show ?thesis
    proof (cases "typescript_block_opener ?src")
      case True
      obtain body src' line' where
        b: "typescript_multiline_body (drop 2 ?src) line = (body, src', line')"
        by (cases "typescript_multiline_body (drop 2 ?src) line") auto
      let ?k = "take 2 ?src @ body"
      let ?cm = "\<lparr>content = ?k, start_line = line, end_line = line', is_multiline = True\<rparr>"
      from "2.prems"(1) False True b step have ok: "\<not> MAX_COMMENTS \<le> length cs" "\<not> MAX_LENGTH \<le> length ?k"
        and run: "extract_comments_typescript_loop src' line' (cs @ [?cm]) clean = Inr (cs', clean')"
        by (auto split: if_splits)
      have "length (cs @ [?cm]) \<le> MAX_COMMENTS"
        and "list_all (\<lambda>c. length (content c) < MAX_LENGTH) (cs @ [?cm])"
        using ok "2.prems"(3) by simp_all
      from "2.IH"(2)[OF False True ok(1) b[symmetric] refl ok(2) run this] show ?thesis .
    next
      case no: False
      from "2.prems"(1) False no step have
        run: "extract_comments_typescript_loop rest (if c = newline then line + 1 else line) cs (clean @ [c])
              = Inr (cs', clean')"
        by simp
      from "2.IH"(3)[OF False no run "2.prems"(2,3)] show ?thesis .
    qed
  qed
qed

lemma many_comments_overrun:
  "extract_comments LANG_PYTHON (concat (replicate 101 (''#'' @ [newline]))) = Inl Comments_Full"
  "extract_comments LANG_TYPESCRIPT (concat (replicate 101 (''//'' @ [newline]))) = Inl Comments_Full"
  by code_simp+







subsection \<open>Tokenizer\<close>

lemma skip_whitespace_line:
  "skip_whitespace src line = (src', line') \<Longrightarrow> line \<le> line'"
  by (induction src line arbitrary: src' line' rule: skip_whitespace.induct)
     (auto split: if_splits dest: Suc_leD)

lemma scan_string_typescript_line:
  "scan_string_typescript q src line = (v, src', line') \<Longrightarrow> line \<le> line'"
  by (induction q src line arbitrary: v src' line' rule: scan_string_typescript.induct)
     (auto split: if_splits prod.splits dest: Suc_leD)

lemma tokens_ok_later: "tokens_ok line tokens \<Longrightarrow> line \<le> line' \<Longrightarrow> tokens_ok line' tokens"
  by (auto simp: tokens_ok_def list_all_iff)

lemma tokens_ok_append:
  assumes "tokens_ok line tokens" "line \<le> line'" "v \<noteq> []"
  shows "tokens_ok line' (tokens @ [\<lparr>tok_value = v, tok_type = ty, tok_line = line'\<rparr>])"
  using assms by (auto simp: tokens_ok_def list_all_iff sorted_append)

lemma takeWhile_first_nonempty: "P c \<Longrightarrow> takeWhile P (c # rest) \<noteq> []"
  by simp

lemma operator_text_nonempty: "is_operator_char c \<Longrightarrow> operator_text (c # rest) \<noteq> []"
  by (simp add: operator_text_first)

lemma tokenize_python_loop_ok:
  "tokenize_python_loop src line tokens = Inr tokens' \<Longrightarrow> tokens_ok line tokens \<Longrightarrow>
   \<exists>line'. tokens_ok line' tokens'"
proof (induction src line tokens rule: tokenize_python_loop.induct)
  case (1 line tokens)
  then show ?case by auto
next
  case (2 c0 rest0 line tokens)
  note step = tokenize_python_loop.simps(2)[of c0 rest0 line tokens]
  note [simp del] = tokenize_python_loop.simps takeWhile.simps dropWhile.simps
  show ?case
  proof (cases "MAX_TOKENS \<le> length tokens")
    case True
    with "2.prems" step show ?thesis by auto
  next
    case False
    obtain src l1 where sk: "skip_whitespace (c0 # rest0) line = (src, l1)"
      by (cases "skip_whitespace (c0 # rest0) line") auto
    have le: "line \<le> l1" by (rule skip_whitespace_line[OF sk])
    show ?thesis
    proof (cases src)
      case Nil
      with "2.prems" step False sk show ?thesis by auto
    next
      case (Cons c rest)
      note IH = "2.IH"[OF False sk[symmetric] Cons]
      consider (ident) "isalpha c \<or> c = CHR ''_''"
        | (number) "\<not> (isalpha c \<or> c = CHR ''_'')" "isdigit c"
        | (str) "\<not> (isalpha c \<or> c = CHR ''_'')" "\<not> isdigit c" "c = dquote \<or> c = squote"
        | (oper) "\<not> (isalpha c \<or> c = CHR ''_'')" "\<not> isdigit c" "\<not> (c = dquote \<or> c = squote)"
            "is_operator_char c"
        | (delim) "\<not> (isalpha c \<or> c = CHR ''_'')" "\<not> isdigit c" "\<not> (c = dquote \<or> c = squote)"
            "\<not> is_operator_char c" "is_delimiter_char c"
        | (other) "\<not> (isalpha c \<or> c = CHR ''_'')" "\<not> isdigit c" "\<not> (c = dquote \<or> c = squote)"
            "\<not> is_operator_char c" "\<not> is_delimiter_char c"
        by blast
      then show ?thesis
      proof cases
        case ident
        let ?v = "takeWhile ident_char_python src"
        let ?t = "\<lparr>tok_value = ?v, tok_type = (if is_python_keyword ?v then KEYWORD else IDENTIFIER),
                   tok_line = l1\<rparr>"
        from "2.prems"(1) step False sk Cons ident have ok: "\<not> VALUE_SIZE \<le> length ?v"
          and run: "tokenize_python_loop (dropWhile ident_char_python src) l1 (tokens @ [?t]) = Inr tokens'"
          by (auto split: if_splits)
        have "?v \<noteq> []" unfolding Cons
          by (intro takeWhile_first_nonempty ident_start_python ident)
        from IH(1)[OF ident ok run tokens_ok_append[OF "2.prems"(2) le this]]
        show ?thesis .
      next
        case number
        let ?v = "takeWhile number_char src"
        let ?t = "\<lparr>tok_value = ?v, tok_type = (if CHR ''.'' \<in> set ?v then FLOAT_LITERAL else INT_LITERAL),
                   tok_line = l1\<rparr>"
        from "2.prems"(1) step False sk Cons number have ok: "\<not> VALUE_SIZE \<le> length ?v"
          and run: "tokenize_python_loop (dropWhile number_char src) l1 (tokens @ [?t]) = Inr tokens'"
          by (auto split: if_splits)
        have "?v \<noteq> []" unfolding Cons
          by (intro takeWhile_first_nonempty number_start number)
        from IH(2)[OF number ok run tokens_ok_append[OF "2.prems"(2) le this]]
        show ?thesis .
      next
        case str
        obtain v src' where sc: "scan_string_python c rest = (v, src')"
          by (cases "scan_string_python c rest") auto
        let ?t = "\<lparr>tok_value = c # v, tok_type = STRING_LITERAL, tok_line = l1\<rparr>"
        from "2.prems"(1) step False sk Cons str sc have ok: "\<not> VALUE_SIZE \<le> length (c # v)"
          and run: "tokenize_python_loop src' l1 (tokens @ [?t]) = Inr tokens'"
          by (auto split: if_splits)
        from IH(3)[OF str sc[symmetric] ok run tokens_ok_append[OF "2.prems"(2) le]]
        show ?thesis by simp
      next
        case oper
        let ?t = "\<lparr>tok_value = operator_text src, tok_type = OPERATOR, tok_line = l1\<rparr>"
        from "2.prems"(1) step False sk Cons oper have
          run: "tokenize_python_loop (drop (length (operator_text src)) src) l1 (tokens @ [?t]) = Inr tokens'"
          by (auto split: if_splits)
        have "operator_text src \<noteq> []" unfolding Cons
          by (intro operator_text_nonempty oper)
        from IH(4)[OF oper run tokens_ok_append[OF "2.prems"(2) le this]]
        show ?thesis .
      next
        case delim
        let ?t = "\<lparr>tok_value = [c], tok_type = DELIMITER, tok_line = l1\<rparr>"
        from "2.prems"(1) step False sk Cons delim have
          run: "tokenize_python_loop rest l1 (tokens @ [?t]) = Inr tokens'"
          by (auto split: if_splits)
        from IH(5)[OF delim run tokens_ok_append[OF "2.prems"(2) le]]
        show ?thesis by simp
      next
        case other
        from "2.prems"(1) step False sk Cons other have
          run: "tokenize_python_loop rest l1 tokens = Inr tokens'"
          by (auto split: if_splits)
        from IH(6)[OF other run tokens_ok_later[OF "2.prems"(2) le]]
        show ?thesis .
      qed
    qed
  qed
qed

lemma tokenize_typescript_loop_ok:
  "tokenize_typescript_loop src line tokens = Inr tokens' \<Longrightarrow> tokens_ok line tokens \<Longrightarrow>
   \<exists>line'. tokens_ok line' tokens'"
proof (induction src line tokens rule: tokenize_typescript_loop.induct)
  case (1 line tokens)
  then show ?case by auto
next
  case (2 c0 rest0 line tokens)
  note step = tokenize_typescript_loop.simps(2)[of c0 rest0 line tokens]
  note [simp del] = tokenize_typescript_loop.simps takeWhile.simps dropWhile.simps
  show ?case
  proof (cases "MAX_TOKENS \<le> length tokens")
    case True
    with "2.prems" step show ?thesis by auto
  next
    case False
    obtain src l1 where sk: "skip_whitespace (c0 # rest0) line = (src, l1)"
      by (cases "skip_whitespace (c0 # rest0) line") auto
    have le: "line \<le> l1" by (rule skip_whitespace_line[OF sk])
    show ?thesis
    proof (cases src)
      case Nil
      with "2.prems" step False sk show ?thesis by auto
    next
      case (Cons c rest)
      note IH = "2.IH"[OF False sk[symmetric] Cons]
      consider (ident) "isalpha c \<or> c = CHR ''_'' \<or> c = CHR ''$''"
        | (number) "\<not> (isalpha c \<or> c = CHR ''_'' \<or> c = CHR ''$'')" "isdigit c"
        | (str) "\<not> (isalpha c \<or> c = CHR ''_'' \<or> c = CHR ''$'')" "\<not> isdigit c" "c = dquote \<or> c = squote \<or> c = backtick"
        | (oper) "\<not> (isalpha c \<or> c = CHR ''_'' \<or> c = CHR ''$'')" "\<not> isdigit c" "\<not> (c = dquote \<or> c = squote \<or> c = backtick)"
            "is_operator_char c"
        | (delim) "\<not> (isalpha c \<or> c = CHR ''_'' \<or> c = CHR ''$'')" "\<not> isdigit c" "\<not> (c = dquote \<or> c = squote \<or> c = backtick)"
            "\<not> is_operator_char c" "is_delimiter_char c"
        | (other) "\<not> (isalpha c \<or> c = CHR ''_'' \<or> c = CHR ''$'')" "\<not> isdigit c" "\<not> (c = dquote \<or> c = squote \<or> c = backtick)"
            "\<not> is_operator_char c" "\<not> is_delimiter_char c"
        by blast
      then show ?thesis
      proof cases
        case ident
        let ?v = "takeWhile ident_char_typescript src"
        let ?t = "\<lparr>tok_value = ?v, tok_type = (if is_typescript_keyword ?v then KEYWORD else IDENTIFIER),
                   tok_line = l1\<rparr>"
        from "2.prems"(1) step False sk Cons ident have ok: "\<not> VALUE_SIZE \<le> length ?v"
          and run: "tokenize_typescript_loop (dropWhile ident_char_typescript src) l1 (tokens @ [?t]) = Inr tokens'"
          by (auto split: if_splits)
        have "?v \<noteq> []" unfolding Cons
          by (intro takeWhile_first_nonempty ident_start_typescript ident)
        from IH(1)[OF ident ok run tokens_ok_append[OF "2.prems"(2) le this]]
        show ?thesis .
      next
        case number
        let ?v = "takeWhile number_char src"
        let ?t = "\<lparr>tok_value = ?v, tok_type = (if CHR ''.'' \<in> set ?v then FLOAT_LITERAL else INT_LITERAL),
                   tok_line = l1\<rparr>"
        from "2.prems"(1) step False sk Cons number have ok: "\<not> VALUE_SIZE \<le> length ?v"
          and run: "tokenize_typescript_loop (dropWhile number_char src) l1 (tokens @ [?t]) = Inr tokens'"
          by (auto split: if_splits)
        have "?v \<noteq> []" unfolding Cons
          by (intro takeWhile_first_nonempty number_start number)
        from IH(2)[OF number ok run tokens_ok_append[OF "2.prems"(2) le this]]
        show ?thesis .
      next
        case str
        obtain v src' l2 where sc: "scan_string_typescript c rest l1 = (v, src', l2)"
          by (cases "scan_string_typescript c rest l1") auto
        have le2: "line \<le> l2"
          using le scan_string_typescript_line[OF sc] by simp
        let ?t = "\<lparr>tok_value = c # v, tok_type = STRING_LITERAL, tok_line = l2\<rparr>"
        from "2.prems"(1) step False sk Cons str sc have ok: "\<not> VALUE_SIZE \<le> length (c # v)"
          and run: "tokenize_typescript_loop src' l2 (tokens @ [?t]) = Inr tokens'"
          by (auto split: if_splits)
        from IH(3)[OF str sc[symmetric] refl ok run tokens_ok_append[OF "2.prems"(2) le2]]
        show ?thesis by simp
      next
        case oper
        let ?t = "\<lparr>tok_value = operator_text src, tok_type = OPERATOR, tok_line = l1\<rparr>"
        from "2.prems"(1) step False sk Cons oper have
          run: "tokenize_typescript_loop (drop (length (operator_text src)) src) l1 (tokens @ [?t]) = Inr tokens'"
          by (auto split: if_splits)
        have "operator_text src \<noteq> []" unfolding Cons
          by (intro operator_text_nonempty oper)
        from IH(4)[OF oper run tokens_ok_append[OF "2.prems"(2) le this]]
        show ?thesis .
      next
        case delim
        let ?t = "\<lparr>tok_value = [c], tok_type = DELIMITER, tok_line = l1\<rparr>"
        from "2.prems"(1) step False sk Cons delim have
          run: "tokenize_typescript_loop rest l1 (tokens @ [?t]) = Inr tokens'"
          by (auto split: if_splits)
        from IH(5)[OF delim run tokens_ok_append[OF "2.prems"(2) le]]
        show ?thesis by simp
      next
        case other
        from "2.prems"(1) step False sk Cons other have
          run: "tokenize_typescript_loop rest l1 tokens = Inr tokens'"
          by (auto split: if_splits)
        from IH(6)[OF other run tokens_ok_later[OF "2.prems"(2) le]]
        show ?thesis .
      qed
    qed
  qed
qed

text \<open>
  Claim C7. In either language, every token that the tokenizer produces has a text
  that is not empty and a line number of at least 1, and the line numbers do not
  decrease along the token sequence. The tokenizer returns unless the text of an
  identifier, a number or a string literal does not fit into \<open>value[256]\<close>.
\<close>

theorem tokenize_tokens_ok:
  assumes "tokenize lang source_code = Inr tokens"
  shows "list_all (\<lambda>t. tok_value t \<noteq> [] \<and> 1 \<le> tok_line t) tokens
         \<and> sorted (map tok_line tokens)"
proof -
  have start: "tokens_ok 1 []" by (simp add: tokens_ok_def)
  have "\<exists>line'. tokens_ok line' tokens"
  proof (cases lang)
    case LANG_PYTHON
    with assms have "tokenize_python_loop source_code 1 [] = Inr tokens"
      by (simp add: tokenize_def tokenize_python_def)
    from tokenize_python_loop_ok[OF this start] show ?thesis .
  next
    case LANG_TYPESCRIPT
    with assms have "tokenize_typescript_loop source_code 1 [] = Inr tokens"
      by (simp add: tokenize_def tokenize_typescript_def)
    from tokenize_typescript_loop_ok[OF this start] show ?thesis .
  qed
  then show ?thesis by (auto simp: tokens_ok_def list_all_iff)
qed

theorem tokenize_tokens_ok_witness:
  "tokenize LANG_TYPESCRIPT (''a = `x'' @ [newline] @ ''y`;'')
     = Inr [Tok ''a'' IDENTIFIER 1, Tok ''='' OPERATOR 1,
            Tok ([backtick] @ ''x'' @ [newline] @ ''y'' @ [backtick]) STRING_LITERAL 2,
            Tok '';'' DELIMITER 2]
   \<and> list_all (\<lambda>t. tok_value t \<noteq> [] \<and> 1 \<le> tok_line t)
         [Tok ''a'' IDENTIFIER 1, Tok ''='' OPERATOR 1,
          Tok ([backtick] @ ''x'' @ [newline] @ ''y'' @ [backtick]) STRING_LITERAL 2,
          Tok '';'' DELIMITER 2]
   \<and> sorted (map tok_line
         [Tok ''a'' IDENTIFIER 1, Tok ''='' OPERATOR 1,
          Tok ([backtick] @ ''x'' @ [newline] @ ''y'' @ [backtick]) STRING_LITERAL 2,
          Tok '';'' DELIMITER 2])"
proof -
  have run: "tokenize LANG_TYPESCRIPT (''a = `x'' @ [newline] @ ''y`;'')
     = Inr [Tok ''a'' IDENTIFIER 1, Tok ''='' OPERATOR 1,
            Tok ([backtick] @ ''x'' @ [newline] @ ''y'' @ [backtick]) STRING_LITERAL 2,
            Tok '';'' DELIMITER 2]"
    by code_simp
  from tokenize_tokens_ok[OF run] run show ?thesis by simp
qed

subsection \<open>Runs of the analysis on given texts\<close>

text \<open>
  Claim C1 (scenario F). On the Python text of a three-line triple-quoted comment
  followed by \<open>z = 1\<close> on line 4, the extractor emits one multi-line comment of lines 1
  to 3. The newlines inside the comment are not copied into the clean text, and the
  tokenizer counts lines of the clean text from 1 again: it stamps the tokens of
  \<open>z = 1\<close> with line 2, not 4.
\<close>

theorem scenario_F_tokens_on_line_2:
  "analyze LANG_PYTHON
     ([squote, squote, squote, newline] @ ''line two'' @ [newline, squote, squote, squote, newline]
      @ ''z = 1'')
   = Inr ([Tok ''z'' IDENTIFIER 2, Tok ''='' OPERATOR 2, Tok ''1'' INT_LITERAL 2],
          [\<lparr>content = [squote, squote, squote, newline] @ ''line two''
                        @ [newline, squote, squote, squote],
            start_line = 1, end_line = 3, is_multiline = True\<rparr>],
          [])"
  by code_simp

lemma scenario_E_run:
  "analyze LANG_PYTHON (''x = 1'' @ [newline] @ ''y = 2'' @ [newline] @ ''print(x + y)'')
   = Inr ([Tok ''x'' IDENTIFIER 1, Tok ''='' OPERATOR 1, Tok ''1'' INT_LITERAL 1,
           Tok ''y'' IDENTIFIER 2, Tok ''='' OPERATOR 2, Tok ''2'' INT_LITERAL 2,
           Tok ''print'' IDENTIFIER 3, Tok ''('' DELIMITER 3, Tok ''x'' IDENTIFIER 3,
           Tok ''+'' OPERATOR 3, Tok ''y'' IDENTIFIER 3, Tok '')'' DELIMITER 3],
          [],
          [misspelled_error (Tok ''print'' IDENTIFIER 3) ''int''])"
  by code_simp

lemma print_int_distance: "levenshtein_distance ''print'' ''int'' = 2"
  by code_simp

text \<open>
  Claim C2 (scenario E), as stated, fails: the analysis of the three-line text reports
  one error.
\<close>

theorem scenario_E_reports_an_error:
  "analyze LANG_PYTHON (''x = 1'' @ [newline] @ ''y = 2'' @ [newline] @ ''print(x + y)'')
   = Inr ([Tok ''x'' IDENTIFIER 1, Tok ''='' OPERATOR 1, Tok ''1'' INT_LITERAL 1,
           Tok ''y'' IDENTIFIER 2, Tok ''='' OPERATOR 2, Tok ''2'' INT_LITERAL 2,
           Tok ''print'' IDENTIFIER 3, Tok ''('' DELIMITER 3, Tok ''x'' IDENTIFIER 3,
           Tok ''+'' OPERATOR 3, Tok ''y'' IDENTIFIER 3, Tok '')'' DELIMITER 3],
          [],
          [\<lparr>message = ''Misspelled keyword - '' @ [squote] @ ''print'' @ [squote]
                        @ '' (did you mean '' @ [squote] @ ''int'' @ [squote] @ ''?)'',
            line_number = 3,
            error_type = ERROR_TYPE_MISSPELLED_KEYWORD\<rparr>])"
  using scenario_E_run
  by (simp add: misspelled_error_def Tok_def snprintf_def quoted_def MAX_LENGTH_def)

text \<open>
  Claim C2, amended. The analysis of that text reports exactly one error: the
  identifier \<open>print\<close> on line 3 is at distance 2 of the keyword \<open>int\<close> and is reported as
  a misspelled keyword. The other three detectors report nothing.
\<close>

theorem scenario_E_one_misspelling:
  "\<exists>tokens comments e.
     analyze LANG_PYTHON (''x = 1'' @ [newline] @ ''y = 2'' @ [newline] @ ''print(x + y)'')
       = Inr (tokens, comments, [e])
     \<and> e = misspelled_error (Tok ''print'' IDENTIFIER 3) ''int''
     \<and> error_type e = ERROR_TYPE_MISSPELLED_KEYWORD
     \<and> line_number e = 3
     \<and> levenshtein_distance ''print'' ''int'' = 2"
  using scenario_E_run print_int_distance
  by (simp add: misspelled_error_def Tok_def)

text \<open>
  Claim C4. The loop that copies a multi-line comment runs while
  \<open>source_index + 2 < source_length\<close>: without closing quotes it stops two bytes before
  the end of the text. On the text of three quotes followed by \<open>abc\<close> the comment holds
  the quotes and \<open>a\<close>, and \<open>bc\<close> goes to the clean text.
\<close>

theorem unterminated_comment_leaves_two_bytes:
  "extract_comments_python ([squote, squote, squote] @ ''abc'')
   = Inr ([\<lparr>content = [squote, squote, squote] @ ''a'', start_line = 1, end_line = 1,
            is_multiline = True\<rparr>],
          ''bc'')"
  by code_simp

subsection \<open>The detectors\<close>

lemma emit_errors_result:
  "emit_errors es errors = Inr errors' \<Longrightarrow> errors' = errors @ emitted es"
  by (induction es errors rule: emit_errors.induct) (auto split: if_splits)

lemma keyword_loop_find:
  "keyword_loop v kws =
   List.find (\<lambda>kw. 0 < case_insensitive_distance v kw \<and> case_insensitive_distance v kw \<le> 2) kws"
  by (induction kws) (simp_all add: Let_def levenshtein_distance_recurrence)

lemma misspelled_keyword_at_suggestion:
  "misspelled_keyword_at kws t = map_option (misspelled_error t) (suggestion kws t)"
  by (auto simp: misspelled_keyword_at_def suggestion_def keyword_loop_find split: option.splits)
lemma let_b_boolean_y_tokens:
  "tokenize LANG_TYPESCRIPT ''let b: boolean = y''
   = Inr [Tok ''let'' KEYWORD 1, Tok ''b'' IDENTIFIER 1, Tok '':'' DELIMITER 1,
          Tok ''boolean'' KEYWORD 1, Tok ''='' OPERATOR 1, Tok ''y'' IDENTIFIER 1]"
  by code_simp

lemma let_b_boolean_y_errors:
  "check_type_mismatch_typescript
     [Tok ''let'' KEYWORD 1, Tok ''b'' IDENTIFIER 1, Tok '':'' DELIMITER 1,
      Tok ''boolean'' KEYWORD 1, Tok ''='' OPERATOR 1, Tok ''y'' IDENTIFIER 1] []
   = Inr [boolean_mismatch_error
            [Tok ''let'' KEYWORD 1, Tok ''b'' IDENTIFIER 1, Tok '':'' DELIMITER 1,
             Tok ''boolean'' KEYWORD 1, Tok ''='' OPERATOR 1, Tok ''y'' IDENTIFIER 1] 0]"
  by code_simp

lemma let_n_number_y_tokens:
  "tokenize LANG_TYPESCRIPT ''let n: number = y''
   = Inr [Tok ''let'' KEYWORD 1, Tok ''n'' IDENTIFIER 1, Tok '':'' DELIMITER 1,
          Tok ''number'' KEYWORD 1, Tok ''='' OPERATOR 1, Tok ''y'' IDENTIFIER 1]"
  by code_simp

lemma let_n_number_y_errors:
  "check_type_mismatch_typescript
     [Tok ''let'' KEYWORD 1, Tok ''n'' IDENTIFIER 1, Tok '':'' DELIMITER 1,
      Tok ''number'' KEYWORD 1, Tok ''='' OPERATOR 1, Tok ''y'' IDENTIFIER 1] [] = Inr []"
  by code_simp

lemma let_s_string_y_tokens:
  "tokenize LANG_TYPESCRIPT ''let s: string = y''
   = Inr [Tok ''let'' KEYWORD 1, Tok ''s'' IDENTIFIER 1, Tok '':'' DELIMITER 1,
          Tok ''string'' KEYWORD 1, Tok ''='' OPERATOR 1, Tok ''y'' IDENTIFIER 1]"
  by code_simp

lemma let_s_string_y_errors:
  "check_type_mismatch_typescript
     [Tok ''let'' KEYWORD 1, Tok ''s'' IDENTIFIER 1, Tok '':'' DELIMITER 1,
      Tok ''string'' KEYWORD 1, Tok ''='' OPERATOR 1, Tok ''y'' IDENTIFIER 1] [] = Inr []"
  by code_simp

text \<open>
  Claim C3 does not hold of the code, and the fault is in the code. The claim says
  that, in a declaration of a \<open>boolean\<close>, no type mismatch is reported when the
  assigned token is not a literal. The \<open>number\<close> and \<open>string\<close> branches of
  \<open>check_type_mismatch_typescript\<close> (and every branch of the Python detector) test
  \<open>value_type\<close>, the kind of the assigned token; the \<open>boolean\<close> branch alone compares only
  the text of that token with \<open>true\<close> and \<open>false\<close>. So, for the same assigned identifier
  \<open>y\<close>, the texts \<open>let n: number = y\<close> and \<open>let s: string = y\<close> are accepted, while
  \<open>let b: boolean = y\<close>, whose sixth token is an \<open>IDENTIFIER\<close>, is reported.
\<close>

theorem boolean_mismatch_for_identifier:
  "tokenize LANG_TYPESCRIPT ''let b: boolean = y''
     = Inr [Tok ''let'' KEYWORD 1, Tok ''b'' IDENTIFIER 1, Tok '':'' DELIMITER 1,
            Tok ''boolean'' KEYWORD 1, Tok ''='' OPERATOR 1, Tok ''y'' IDENTIFIER 1]
   \<and> check_type_mismatch_typescript
       [Tok ''let'' KEYWORD 1, Tok ''b'' IDENTIFIER 1, Tok '':'' DELIMITER 1,
        Tok ''boolean'' KEYWORD 1, Tok ''='' OPERATOR 1, Tok ''y'' IDENTIFIER 1] []
     = Inr [\<lparr>message = ''Type mismatch - '' @ [squote] @ ''b'' @ [squote]
                          @ '' declared as boolean but assigned non-boolean value'',
              line_number = 1,
              error_type = ERROR_TYPE_TYPE_MISMATCH\<rparr>]
   \<and> tok_type ([Tok ''let'' KEYWORD 1, Tok ''b'' IDENTIFIER 1, Tok '':'' DELIMITER 1,
                 Tok ''boolean'' KEYWORD 1, Tok ''='' OPERATOR 1, Tok ''y'' IDENTIFIER 1] ! 5)
     = IDENTIFIER
   \<and> tokenize LANG_TYPESCRIPT ''let n: number = y''
     = Inr [Tok ''let'' KEYWORD 1, Tok ''n'' IDENTIFIER 1, Tok '':'' DELIMITER 1,
            Tok ''number'' KEYWORD 1, Tok ''='' OPERATOR 1, Tok ''y'' IDENTIFIER 1]
   \<and> check_type_mismatch_typescript
       [Tok ''let'' KEYWORD 1, Tok ''n'' IDENTIFIER 1, Tok '':'' DELIMITER 1,
        Tok ''number'' KEYWORD 1, Tok ''='' OPERATOR 1, Tok ''y'' IDENTIFIER 1] [] = Inr []
   \<and> tokenize LANG_TYPESCRIPT ''let s: string = y''
     = Inr [Tok ''let'' KEYWORD 1, Tok ''s'' IDENTIFIER 1, Tok '':'' DELIMITER 1,
            Tok ''string'' KEYWORD 1, Tok ''='' OPERATOR 1, Tok ''y'' IDENTIFIER 1]
   \<and> check_type_mismatch_typescript
       [Tok ''let'' KEYWORD 1, Tok ''s'' IDENTIFIER 1, Tok '':'' DELIMITER 1,
        Tok ''string'' KEYWORD 1, Tok ''='' OPERATOR 1, Tok ''y'' IDENTIFIER 1] [] = Inr []"
  using let_b_boolean_y_tokens let_b_boolean_y_errors
    let_n_number_y_tokens let_n_number_y_errors
    let_s_string_y_tokens let_s_string_y_errors
  by (simp add: boolean_mismatch_error_def Tok_def snprintf_def quoted_def MAX_LENGTH_def)

subsection \<open>The symbol table of the undeclared-identifier detectors\<close>












































subsection \<open>Runs within the bounds of the arrays\<close>

text \<open>
  The properties above of the extractor, the tokenizer and the detectors are stated for
  the runs that return. They all return on small inputs: the extractor on a text shorter
  than \<open>MAX_LENGTH\<close> bytes with at most \<open>MAX_COMMENTS\<close> characters that can start a
  comment, the tokenizer on a text shorter than \<open>value[256]\<close>, and a detector exactly
  when its errors fit into the array of \<open>MAX_ERRORS\<close> errors.
\<close>

lemma emit_errors_exact:
  "length errors \<le> MAX_ERRORS \<Longrightarrow>
   emit_errors es errors =
     (if length errors + length (emitted es) \<le> MAX_ERRORS then Inr (errors @ emitted es)
      else Inl Errors_Full)"
  by (induction es errors rule: emit_errors.induct) auto

lemma marks_dropWhile: "length (filter P (dropWhile Q xs)) \<le> length (filter P xs)"
  by (induction xs) auto

lemma marks_suffix: "pre @ suf = xs \<Longrightarrow> length (filter P suf) \<le> length (filter P xs)"
  by auto

lemma marks_drop: "length (filter P (drop n xs)) \<le> length (filter P xs)"
  by (rule marks_suffix[of "take n xs"]) simp

lemma python_loop_returns:
  "length src < MAX_LENGTH \<Longrightarrow> length cs + length (filter comment_mark src) \<le> MAX_COMMENTS \<Longrightarrow>
   \<exists>r. extract_comments_python_loop src line cs clean = Inr r"
proof (induction src line cs clean rule: extract_comments_python_loop.induct)
  case (1 line cs clean)
  then show ?case by simp
next
  case (2 c rest line cs clean)
  let ?src = "c # rest"
  note step = extract_comments_python_loop.simps(2)[of c rest line cs clean]
  note [simp del] = extract_comments_python_loop.simps takeWhile.simps dropWhile.simps
    take_Suc_Cons drop_Suc_Cons
  have small: "length k \<le> length ?src \<Longrightarrow> \<not> MAX_LENGTH \<le> length k" for k :: string
    using "2.prems"(1) by simp
  have short: "length k < length ?src \<Longrightarrow> length k < MAX_LENGTH" for k :: string
    using "2.prems"(1) by simp
  show ?case
  proof (cases "c = CHR ''#''")
    case True
    let ?k = "takeWhile not_newline ?src"
    have mark: "comment_mark c" using True by (simp add: comment_mark_def)
    have room: "\<not> MAX_COMMENTS \<le> length cs"
      using "2.prems"(2) mark by simp
    have ok: "\<not> MAX_LENGTH \<le> length ?k"
      by (rule small) (rule length_takeWhile_le)
    have dw: "dropWhile not_newline ?src = dropWhile not_newline rest"
      using True by (simp add: not_newline_def newline_def dropWhile.simps)
    have "length (dropWhile not_newline ?src) < length ?src"
      unfolding dw using length_dropWhile_le[of not_newline rest] by simp
    then have less: "length (dropWhile not_newline ?src) < MAX_LENGTH" by (rule short)
    have "length (filter comment_mark (dropWhile not_newline ?src)) \<le> length (filter comment_mark rest)"
      unfolding dw by (rule marks_dropWhile)
    then have "length (cs @ [\<lparr>content = ?k, start_line = line, end_line = line,
        is_multiline = False\<rparr>]) + length (filter comment_mark (dropWhile not_newline ?src))
        \<le> MAX_COMMENTS"
      using "2.prems"(2) mark by simp
    from "2.IH"(1)[OF True room ok less this] show ?thesis
      using True room ok step by simp
  next
    case False
    show ?thesis
    proof (cases "python_opener ?src")
      case True
      obtain body src' line' where
        b: "python_multiline_body c (drop 3 ?src) line = (body, src', line')"
        by (cases "python_multiline_body c (drop 3 ?src) line") auto
      let ?k = "take 3 ?src @ body"
      from True have mark: "comment_mark c"
        by (cases rest; cases "tl rest") (auto simp: comment_mark_def)
      have room: "\<not> MAX_COMMENTS \<le> length cs"
        using "2.prems"(2) mark by simp
      have whole: "?k @ src' = ?src"
        using python_multiline_body_append[OF b] append_take_drop_id[of 3 ?src]
        by (metis append.assoc)
      then have "length ?k + length src' = length ?src"
        by (metis length_append)
      moreover have "3 \<le> length ?src" using True by (cases rest; cases "tl rest") auto
      ultimately have shorter: "length src' < length ?src" and fits: "length ?k \<le> length ?src"
        by simp_all
      have ok: "\<not> MAX_LENGTH \<le> length ?k" by (rule small[OF fits])
      have "length (filter comment_mark src') \<le> length (filter comment_mark (drop 3 ?src))"
        by (rule marks_suffix[OF python_multiline_body_append[OF b]])
      also have "\<dots> \<le> length (filter comment_mark rest)"
        using marks_drop[of comment_mark 2 rest] by (simp add: drop_Suc_Cons numeral_3_eq_3 numeral_2_eq_2)
      finally have "length (cs @ [\<lparr>content = ?k, start_line = line, end_line = line',
          is_multiline = True\<rparr>]) + length (filter comment_mark src') \<le> MAX_COMMENTS"
        using "2.prems"(2) mark by simp
      from "2.IH"(2)[OF False True room b[symmetric] refl ok short[OF shorter] this] show ?thesis
        using False True room ok step b by simp
    next
      case no: False
      have "length rest < MAX_LENGTH" by (rule short) simp
      moreover have "length cs + length (filter comment_mark rest) \<le> MAX_COMMENTS"
        using "2.prems"(2) by (simp split: if_splits)
      ultimately show ?thesis
        using "2.IH"(3)[OF False no] False no step by simp
    qed
  qed
qed

lemma typescript_loop_returns:
  "length src < MAX_LENGTH \<Longrightarrow> length cs + length (filter comment_mark src) \<le> MAX_COMMENTS \<Longrightarrow>
   \<exists>r. extract_comments_typescript_loop src line cs clean = Inr r"
proof (induction src line cs clean rule: extract_comments_typescript_loop.induct)
  case (1 line cs clean)
  then show ?case by simp
next
  case (2 c rest line cs clean)
  let ?src = "c # rest"
  note step = extract_comments_typescript_loop.simps(2)[of c rest line cs clean]
  note [simp del] = extract_comments_typescript_loop.simps takeWhile.simps dropWhile.simps
    take_Suc_Cons drop_Suc_Cons
  have small: "length k \<le> length ?src \<Longrightarrow> \<not> MAX_LENGTH \<le> length k" for k :: string
    using "2.prems"(1) by simp
  have short: "length k < length ?src \<Longrightarrow> length k < MAX_LENGTH" for k :: string
    using "2.prems"(1) by simp
  show ?case
  proof (cases "typescript_line_opener ?src")
    case True
    let ?k = "takeWhile not_newline ?src"
    from True have c: "c = CHR ''/''" by (cases rest) auto
    have mark: "comment_mark c" using c by (simp add: comment_mark_def)
    have room: "\<not> MAX_COMMENTS \<le> length cs"
      using "2.prems"(2) mark by simp
    have ok: "\<not> MAX_LENGTH \<le> length ?k"
      by (rule small) (rule length_takeWhile_le)
    have dw: "dropWhile not_newline ?src = dropWhile not_newline rest"
      using c by (simp add: not_newline_def newline_def dropWhile.simps)
    have "length (dropWhile not_newline ?src) < length ?src"
      unfolding dw using length_dropWhile_le[of not_newline rest] by simp
    then have less: "length (dropWhile not_newline ?src) < MAX_LENGTH" by (rule short)
    have "length (filter comment_mark (dropWhile not_newline ?src)) \<le> length (filter comment_mark rest)"
      unfolding dw by (rule marks_dropWhile)
    then have "length (cs @ [\<lparr>content = ?k, start_line = line, end_line = line,
        is_multiline = False\<rparr>]) + length (filter comment_mark (dropWhile not_newline ?src))
        \<le> MAX_COMMENTS"
      using "2.prems"(2) mark by simp
    from "2.IH"(1)[OF True room ok less this] show ?thesis
      using True room ok step by simp
  next
    case False
    show ?thesis
    proof (cases "typescript_block_opener ?src")
      case True
      obtain body src' line' where
        b: "typescript_multiline_body (drop 2 ?src) line = (body, src', line')"
        by (cases "typescript_multiline_body (drop 2 ?src) line") auto
      let ?k = "take 2 ?src @ body"
      from True have mark: "comment_mark c"
        by (cases rest) (auto simp: comment_mark_def)
      have room: "\<not> MAX_COMMENTS \<le> length cs"
        using "2.prems"(2) mark by simp
      have whole: "?k @ src' = ?src"
        using typescript_multiline_body_append[OF b] append_take_drop_id[of 2 ?src]
        by (metis append.assoc)
      then have "length ?k + length src' = length ?src"
        by (metis length_append)
      moreover have "2 \<le> length ?src" using True by (cases rest) auto
      ultimately have shorter: "length src' < length ?src" and fits: "length ?k \<le> length ?src"
        by simp_all
      have ok: "\<not> MAX_LENGTH \<le> length ?k" by (rule small[OF fits])
      have "length (filter comment_mark src') \<le> length (filter comment_mark (drop 2 ?src))"
        by (rule marks_suffix[OF typescript_multiline_body_append[OF b]])
      also have "\<dots> \<le> length (filter comment_mark rest)"
        using marks_drop[of comment_mark 1 rest] by (simp add: drop_Suc_Cons numeral_2_eq_2)
      finally have "length (cs @ [\<lparr>content = ?k, start_line = line, end_line = line',
          is_multiline = True\<rparr>]) + length (filter comment_mark src') \<le> MAX_COMMENTS"
        using "2.prems"(2) mark by simp
      from "2.IH"(2)[OF False True room b[symmetric] refl ok short[OF shorter] this] show ?thesis
        using False True room ok step b by simp
    next
      case no: False
      have "length rest < MAX_LENGTH" by (rule short) simp
      moreover have "length cs + length (filter comment_mark rest) \<le> MAX_COMMENTS"
        using "2.prems"(2) by (simp split: if_splits)
      ultimately show ?thesis
        using "2.IH"(3)[OF False no] False no step by simp
    qed
  qed
qed

lemma extract_comments_returns:
  assumes "length source_code < MAX_LENGTH"
    and "length (filter comment_mark source_code) \<le> MAX_COMMENTS"
  shows "\<exists>comments clean. extract_comments lang source_code = Inr (comments, clean)"
proof (cases lang)
  case LANG_PYTHON
  from python_loop_returns[of source_code "[]" 1 "[]"] assms
  show ?thesis by (auto simp: LANG_PYTHON extract_comments_def extract_comments_python_def)
next
  case LANG_TYPESCRIPT
  from typescript_loop_returns[of source_code "[]" 1 "[]"] assms
  show ?thesis by (auto simp: LANG_TYPESCRIPT extract_comments_def extract_comments_typescript_def)
qed

lemma scan_string_python_append:
  "scan_string_python q src = (v, src') \<Longrightarrow> v @ src' = src"
  by (induction q src arbitrary: v src' rule: scan_string_python.induct)
     (auto split: if_splits prod.splits)

lemma scan_string_typescript_append:
  "scan_string_typescript q src line = (v, src', line') \<Longrightarrow> v @ src' = src"
  by (induction q src line arbitrary: v src' line' rule: scan_string_typescript.induct)
     (auto split: if_splits prod.splits)

lemma tokenize_python_loop_returns:
  "length src < VALUE_SIZE \<Longrightarrow> \<exists>r. tokenize_python_loop src line tokens = Inr r"
proof (induction src line tokens rule: tokenize_python_loop.induct)
  case (1 line tokens)
  then show ?case by simp
next
  case (2 c0 rest0 line tokens)
  note step = tokenize_python_loop.simps(2)[of c0 rest0 line tokens]
  note [simp del] = tokenize_python_loop.simps takeWhile.simps dropWhile.simps
  show ?case
  proof (cases "MAX_TOKENS \<le> length tokens")
    case True
    with step show ?thesis by simp
  next
    case False
    obtain src l1 where sk: "skip_whitespace (c0 # rest0) line = (src, l1)"
      by (cases "skip_whitespace (c0 # rest0) line") auto
    have short: "length src < VALUE_SIZE"
      using skip_whitespace_length[OF sk] "2.prems" by simp
    show ?thesis
    proof (cases src)
      case Nil
      with step False sk show ?thesis by simp
    next
      case (Cons c rest)
      note IH = "2.IH"[OF False sk[symmetric] Cons]
      have rest: "length rest < VALUE_SIZE" using short Cons by simp
      consider (ident) "isalpha c \<or> c = CHR ''_''"
        | (number) "\<not> (isalpha c \<or> c = CHR ''_'')" "isdigit c"
        | (str) "\<not> (isalpha c \<or> c = CHR ''_'')" "\<not> isdigit c" "c = dquote \<or> c = squote"
        | (oper) "\<not> (isalpha c \<or> c = CHR ''_'')" "\<not> isdigit c" "\<not> (c = dquote \<or> c = squote)"
            "is_operator_char c"
        | (delim) "\<not> (isalpha c \<or> c = CHR ''_'')" "\<not> isdigit c" "\<not> (c = dquote \<or> c = squote)"
            "\<not> is_operator_char c" "is_delimiter_char c"
        | (other) "\<not> (isalpha c \<or> c = CHR ''_'')" "\<not> isdigit c" "\<not> (c = dquote \<or> c = squote)"
            "\<not> is_operator_char c" "\<not> is_delimiter_char c"
        by blast
      then show ?thesis
      proof cases
        case ident
        have ok: "\<not> VALUE_SIZE \<le> length (takeWhile ident_char_python src)"
          using short length_takeWhile_le[of ident_char_python src] by simp
        have "length (dropWhile ident_char_python src) < VALUE_SIZE"
          using short length_dropWhile_le[of ident_char_python src] by simp
        from IH(1)[OF ident ok this] show ?thesis
          using step False sk Cons ident ok by simp
      next
        case number
        have ok: "\<not> VALUE_SIZE \<le> length (takeWhile number_char src)"
          using short length_takeWhile_le[of number_char src] by simp
        have "length (dropWhile number_char src) < VALUE_SIZE"
          using short length_dropWhile_le[of number_char src] by simp
        from IH(2)[OF number ok this] show ?thesis
          using step False sk Cons number ok by simp
      next
        case str
        obtain v src' where sc: "scan_string_python c rest = (v, src')"
          by (cases "scan_string_python c rest") auto
        have "length v + length src' = length rest"
          using scan_string_python_append[OF sc] by (metis length_append)
        then have ok: "\<not> VALUE_SIZE \<le> length (c # v)" and "length src' < VALUE_SIZE"
          using short Cons by simp_all
        from IH(3)[OF str sc[symmetric] ok this(2)] show ?thesis
          using step False sk Cons str sc ok by simp
      next
        case oper
        have "length (drop (length (operator_text src)) src) < VALUE_SIZE"
          using short by simp
        from IH(4)[OF oper this] show ?thesis
          using step False sk Cons oper by simp
      next
        case delim
        from IH(5)[OF delim rest] show ?thesis
          using step False sk Cons delim by simp
      next
        case other
        from IH(6)[OF other rest] show ?thesis
          using step False sk Cons other by simp
      qed
    qed
  qed
qed

lemma tokenize_typescript_loop_returns:
  "length src < VALUE_SIZE \<Longrightarrow> \<exists>r. tokenize_typescript_loop src line tokens = Inr r"
proof (induction src line tokens rule: tokenize_typescript_loop.induct)
  case (1 line tokens)
  then show ?case by simp
next
  case (2 c0 rest0 line tokens)
  note step = tokenize_typescript_loop.simps(2)[of c0 rest0 line tokens]
  note [simp del] = tokenize_typescript_loop.simps takeWhile.simps dropWhile.simps
  show ?case
  proof (cases "MAX_TOKENS \<le> length tokens")
    case True
    with step show ?thesis by simp
  next
    case False
    obtain src l1 where sk: "skip_whitespace (c0 # rest0) line = (src, l1)"
      by (cases "skip_whitespace (c0 # rest0) line") auto
    have short: "length src < VALUE_SIZE"
      using skip_whitespace_length[OF sk] "2.prems" by simp
    show ?thesis
    proof (cases src)
      case Nil
      with step False sk show ?thesis by simp
    next
      case (Cons c rest)
      note IH = "2.IH"[OF False sk[symmetric] Cons]
      have rest: "length rest < VALUE_SIZE" using short Cons by simp
      consider (ident) "isalpha c \<or> c = CHR ''_'' \<or> c = CHR ''$''"
        | (number) "\<not> (isalpha c \<or> c = CHR ''_'' \<or> c = CHR ''$'')" "isdigit c"
        | (str) "\<not> (isalpha c \<or> c = CHR ''_'' \<or> c = CHR ''$'')" "\<not> isdigit c" "c = dquote \<or> c = squote \<or> c = backtick"
        | (oper) "\<not> (isalpha c \<or> c = CHR ''_'' \<or> c = CHR ''$'')" "\<not> isdigit c" "\<not> (c = dquote \<or> c = squote \<or> c = backtick)"
            "is_operator_char c"
        | (delim) "\<not> (isalpha c \<or> c = CHR ''_'' \<or> c = CHR ''$'')" "\<not> isdigit c" "\<not> (c = dquote \<or> c = squote \<or> c = backtick)"
            "\<not> is_operator_char c" "is_delimiter_char c"
        | (other) "\<not> (isalpha c \<or> c = CHR ''_'' \<or> c = CHR ''$'')" "\<not> isdigit c" "\<not> (c = dquote \<or> c = squote \<or> c = backtick)"
            "\<not> is_operator_char c" "\<not> is_delimiter_char c"
        by blast
      then show ?thesis
      proof cases
        case ident
        have ok: "\<not> VALUE_SIZE \<le> length (takeWhile ident_char_typescript src)"
          using short length_takeWhile_le[of ident_char_typescript src] by simp
        have "length (dropWhile ident_char_typescript src) < VALUE_SIZE"
          using short length_dropWhile_le[of ident_char_typescript src] by simp
        from IH(1)[OF ident ok this] show ?thesis
          using step False sk Cons ident ok by simp
      next
        case number
        have ok: "\<not> VALUE_SIZE \<le> length (takeWhile number_char src)"
          using short length_takeWhile_le[of number_char src] by simp
        have "length (dropWhile number_char src) < VALUE_SIZE"
          using short length_dropWhile_le[of number_char src] by simp
        from IH(2)[OF number ok this] show ?thesis
          using step False sk Cons number ok by simp
      next
        case str
        obtain v src' l2 where sc: "scan_string_typescript c rest l1 = (v, src', l2)"
          by (cases "scan_string_typescript c rest l1") auto
        have "length v + length src' = length rest"
          using scan_string_typescript_append[OF sc] by (metis length_append)
        then have ok: "\<not> VALUE_SIZE \<le> length (c # v)" and "length src' < VALUE_SIZE"
          using short Cons by simp_all
        from IH(3)[OF str sc[symmetric] refl ok this(2)] show ?thesis
          using step False sk Cons str sc ok by simp
      next
        case oper
        have "length (drop (length (operator_text src)) src) < VALUE_SIZE"
          using short by simp
        from IH(4)[OF oper this] show ?thesis
          using step False sk Cons oper by simp
      next
        case delim
        from IH(5)[OF delim rest] show ?thesis
          using step False sk Cons delim by simp
      next
        case other
        from IH(6)[OF other rest] show ?thesis
          using step False sk Cons other by simp
      qed
    qed
  qed
qed

lemma tokenize_returns:
  assumes "length source_code < VALUE_SIZE"
  shows "\<exists>tokens. tokenize lang source_code = Inr tokens"
proof (cases lang)
  case LANG_PYTHON
  from tokenize_python_loop_returns[OF assms, of 1 "[]"]
  show ?thesis by (simp add: LANG_PYTHON tokenize_def tokenize_python_def)
next
  case LANG_TYPESCRIPT
  from tokenize_typescript_loop_returns[OF assms, of 1 "[]"]
  show ?thesis by (simp add: LANG_TYPESCRIPT tokenize_def tokenize_typescript_def)
qed

lemma check_misspelled_keyword_exact:
  assumes "length errors \<le> MAX_ERRORS"
  shows "check_misspelled_keyword lang tokens errors =
    (if length errors
          + length (emitted (map (misspelled_keyword_at (keywords_of lang)) tokens)) \<le> MAX_ERRORS
     then Inr (errors @ emitted (map (misspelled_keyword_at (keywords_of lang)) tokens))
     else Inl Errors_Full)"
  using emit_errors_exact[OF assms]
  by (cases lang)
     (simp_all add: check_misspelled_keyword_def keywords_of_def
        check_misspelled_keyword_python_def check_misspelled_keyword_typescript_def)

subsection \<open>The misspelling detector\<close>

lemma emitted_replicate: "emitted (replicate n (Some e)) = replicate n e"
  by (induction n) simp_all

lemma length_emitted: "length (emitted es) \<le> length es"
  by (induction es rule: emitted.induct) simp_all

lemma whille_suggestion:
  "misspelled_keyword_at PYTHON_KEYWORDS (Tok ''whille'' IDENTIFIER 1) =
   Some (misspelled_error (Tok ''whille'' IDENTIFIER 1) ''while'')"
  by code_simp

text \<open>
  Claim C6, as stated, fails. The claim is made for every token stream, but the
  detector writes \<open>errors[*err_count]\<close> with no test of \<open>*err_count\<close> against
  \<open>MAX_ERRORS\<close>: on 101 tokens \<open>whille\<close> (each one at distance 1 from \<open>while\<close>) the 101st
  error has no cell in \<open>errors[MAX_ERRORS]\<close>, and the detector emits no error list.
\<close>

theorem misspelled_keyword_overruns_array:
  "check_misspelled_keyword LANG_PYTHON (replicate 101 (Tok ''whille'' IDENTIFIER 1)) [] =
   Inl Errors_Full"
proof -
  define t where "t = Tok ''whille'' IDENTIFIER 1"
  have "misspelled_keyword_at PYTHON_KEYWORDS t = Some (misspelled_error t ''while'')"
    unfolding t_def by (rule whille_suggestion)
  then have "check_misspelled_keyword LANG_PYTHON (replicate 101 t) [] =
        emit_errors (replicate 101 (Some (misspelled_error t ''while''))) []"
    by (simp add: check_misspelled_keyword_def check_misspelled_keyword_python_def)
  then have "check_misspelled_keyword LANG_PYTHON (replicate 101 t) [] = Inl Errors_Full"
    by (simp add: emit_errors_exact emitted_replicate MAX_ERRORS_def)
  then show ?thesis
    unfolding t_def .
qed

text \<open>
  Claim C6, amended. For either language, every token stream and every error list, as
  long as the errors already recorded and the errors of this stream fit the array of
  \<open>MAX_ERRORS\<close> cells, the misspelling detector returns, and appends to the list, in the
  order of the tokens, exactly one error for each token that has a suggestion and
  nothing for the others. The suggestion of a token exists only for an
  \<open>IDENTIFIER\<close> whose text is longer than 2; it is the first keyword, in the
  order of the language's keyword list, whose case-insensitive Levenshtein distance
  \<open>d\<close> from the text satisfies \<open>0 < d \<le> 2\<close> (none when no keyword does). The error of a
  token carries the token's line, the type \<open>MISSPELLED_KEYWORD\<close> and the message
  naming the token and the suggested keyword.
\<close>

theorem misspelled_keyword_first_match:
  assumes "length errors
           + length (emitted (map (\<lambda>t. map_option (misspelled_error t)
                                        (suggestion (keywords_of lang) t)) tokens))
           \<le> MAX_ERRORS"
  shows "check_misspelled_keyword lang tokens errors =
         Inr (errors @ emitted (map (\<lambda>t. map_option (misspelled_error t)
                                            (suggestion (keywords_of lang) t)) tokens))"
proof -
  let ?at = "\<lambda>t. map_option (misspelled_error t) (suggestion (keywords_of lang) t)"
  have at: "misspelled_keyword_at (keywords_of lang) = ?at"
    by (rule ext) (rule misspelled_keyword_at_suggestion)
  have fits: "length errors \<le> MAX_ERRORS"
    using assms by simp
  have "check_misspelled_keyword lang tokens errors =
        emit_errors (map (misspelled_keyword_at (keywords_of lang)) tokens) errors"
    by (cases lang)
       (simp_all add: check_misspelled_keyword_def keywords_of_def
          check_misspelled_keyword_python_def check_misspelled_keyword_typescript_def)
  then have "check_misspelled_keyword lang tokens errors = emit_errors (map ?at tokens) errors"
    unfolding at .
  with assms show ?thesis
    by (simp add: emit_errors_exact [OF fits])
qed

text \<open>
  The theorem at work in both languages, on identifiers written with capital letters:
  \<open>WHILLE\<close> is 1 away from \<open>while\<close> and \<open>Retrun\<close>, \<open>FUNCTON\<close> are 2 and 1 away from
  \<open>return\<close>, \<open>function\<close>; \<open>While\<close> and \<open>Function\<close> are 0 away from a keyword, \<open>total\<close>
  is more than 2 away from all of them, \<open>xy\<close> is too short, and a \<open>KEYWORD\<close> or a
  \<open>STRING_LITERAL\<close> token is not looked at.
\<close>

theorem misspelled_keyword_first_match_witness:
  "check_misspelled_keyword LANG_PYTHON
     [Tok ''WHILLE'' IDENTIFIER 1, Tok ''xy'' IDENTIFIER 1, Tok ''While'' IDENTIFIER 2,
      Tok ''while'' KEYWORD 2, Tok ''total'' IDENTIFIER 3, Tok ''Retrun'' IDENTIFIER 4,
      Tok ''whille'' STRING_LITERAL 5] [] =
   Inr [\<lparr>message = ''Misspelled keyword - '' @ [squote] @ ''WHILLE'' @ [squote]
                     @ '' (did you mean '' @ [squote] @ ''while'' @ [squote] @ ''?)'',
          line_number = 1, error_type = ERROR_TYPE_MISSPELLED_KEYWORD\<rparr>,
        \<lparr>message = ''Misspelled keyword - '' @ [squote] @ ''Retrun'' @ [squote]
                     @ '' (did you mean '' @ [squote] @ ''return'' @ [squote] @ ''?)'',
          line_number = 4, error_type = ERROR_TYPE_MISSPELLED_KEYWORD\<rparr>]
   \<and> check_misspelled_keyword LANG_TYPESCRIPT
     [Tok ''FUNCTON'' IDENTIFIER 1, Tok ''xy'' IDENTIFIER 1, Tok ''Function'' IDENTIFIER 2,
      Tok ''function'' KEYWORD 2, Tok ''total'' IDENTIFIER 3, Tok ''Retrun'' IDENTIFIER 4,
      Tok ''functon'' STRING_LITERAL 5] [] =
   Inr [\<lparr>message = ''Misspelled keyword - '' @ [squote] @ ''FUNCTON'' @ [squote]
                     @ '' (did you mean '' @ [squote] @ ''function'' @ [squote] @ ''?)'',
          line_number = 1, error_type = ERROR_TYPE_MISSPELLED_KEYWORD\<rparr>,
        \<lparr>message = ''Misspelled keyword - '' @ [squote] @ ''Retrun'' @ [squote]
                     @ '' (did you mean '' @ [squote] @ ''return'' @ [squote] @ ''?)'',
          line_number = 4, error_type = ERROR_TYPE_MISSPELLED_KEYWORD\<rparr>]"
proof -
  define py where "py =
     [Tok ''WHILLE'' IDENTIFIER 1, Tok ''xy'' IDENTIFIER 1, Tok ''While'' IDENTIFIER 2,
      Tok ''while'' KEYWORD 2, Tok ''total'' IDENTIFIER 3, Tok ''Retrun'' IDENTIFIER 4,
      Tok ''whille'' STRING_LITERAL 5]"
  define ts where "ts =
     [Tok ''FUNCTON'' IDENTIFIER 1, Tok ''xy'' IDENTIFIER 1, Tok ''Function'' IDENTIFIER 2,
      Tok ''function'' KEYWORD 2, Tok ''total'' IDENTIFIER 3, Tok ''Retrun'' IDENTIFIER 4,
      Tok ''functon'' STRING_LITERAL 5]"
  have py: "map (\<lambda>t. map_option (misspelled_error t) (suggestion (keywords_of LANG_PYTHON) t)) py =
      [Some (misspelled_error (Tok ''WHILLE'' IDENTIFIER 1) ''while''), None, None, None, None,
       Some (misspelled_error (Tok ''Retrun'' IDENTIFIER 4) ''return''), None]"
    unfolding misspelled_keyword_at_suggestion [symmetric] py_def by code_simp
  have ts: "map (\<lambda>t. map_option (misspelled_error t) (suggestion (keywords_of LANG_TYPESCRIPT) t)) ts =
      [Some (misspelled_error (Tok ''FUNCTON'' IDENTIFIER 1) ''function''), None, None, None, None,
       Some (misspelled_error (Tok ''Retrun'' IDENTIFIER 4) ''return''), None]"
    unfolding misspelled_keyword_at_suggestion [symmetric] ts_def by code_simp
  have "check_misspelled_keyword LANG_PYTHON py [] =
        Inr [misspelled_error (Tok ''WHILLE'' IDENTIFIER 1) ''while'',
             misspelled_error (Tok ''Retrun'' IDENTIFIER 4) ''return'']"
    using misspelled_keyword_first_match [of "[]" LANG_PYTHON py]
    unfolding py by (simp add: MAX_ERRORS_def)
  moreover have "check_misspelled_keyword LANG_TYPESCRIPT ts [] =
        Inr [misspelled_error (Tok ''FUNCTON'' IDENTIFIER 1) ''function'',
             misspelled_error (Tok ''Retrun'' IDENTIFIER 4) ''return'']"
    using misspelled_keyword_first_match [of "[]" LANG_TYPESCRIPT ts]
    unfolding ts by (simp add: MAX_ERRORS_def)
  ultimately show ?thesis
    unfolding py_def ts_def
    by (simp add: misspelled_error_def snprintf_def quoted_def Tok_def MAX_LENGTH_def)
qed

subsection \<open>The extractor puts every byte in one place\<close>

text \<open>
  Claim C5, as stated, fails: on a text of 101 comments (202 bytes in Python, 303 in
  TypeScript) the extractor writes a 101st entry into its array of \<open>MAX_COMMENTS\<close>
  comments, which is past its end. No clean text and no comment list is produced
  there.
\<close>

theorem extract_comments_overruns_array:
  "extract_comments LANG_PYTHON (concat (replicate 101 (''#'' @ [newline]))) = Inl Comments_Full
   \<and> extract_comments LANG_TYPESCRIPT (concat (replicate 101 (''//'' @ [newline]))) = Inl Comments_Full"
  using many_comments_overrun by simp

text \<open>
  Claim C5, amended. In either language, on every text shorter than \<open>MAX_LENGTH\<close> bytes
  with at most \<open>MAX_COMMENTS\<close> characters that can open a comment (\<open>#\<close>, a quote or
  \<open>/\<close>), the extractor returns a comment list and a clean text. And on every text on
  which it returns, that is on which it stays inside its arrays, it has written at most
  \<open>MAX_COMMENTS\<close> comments, each shorter than \<open>MAX_LENGTH\<close> bytes, and the source text is
  the clean text and the contents of the comments put back together: every byte of the
  source is either the next byte of the clean text or the next byte of the next comment,
  in the original order.
\<close>

theorem extract_comments_round_trip:
  "(length source_code < MAX_LENGTH
      \<and> length (filter comment_mark source_code) \<le> MAX_COMMENTS \<longrightarrow>
      (\<exists>comments clean. extract_comments lang source_code = Inr (comments, clean)))
   \<and> (extract_comments lang source_code = Inr (comments, code_without_comments) \<longrightarrow>
        interleaved source_code code_without_comments (map content comments)
        \<and> length comments \<le> MAX_COMMENTS
        \<and> list_all (\<lambda>c. length (content c) < MAX_LENGTH) comments)"
proof (rule conjI; rule impI)
  assume "length source_code < MAX_LENGTH
      \<and> length (filter comment_mark source_code) \<le> MAX_COMMENTS"
  then show "\<exists>comments clean. extract_comments lang source_code = Inr (comments, clean)"
    by (intro extract_comments_returns) simp_all
next
  assume run: "extract_comments lang source_code = Inr (comments, code_without_comments)"
  show "interleaved source_code code_without_comments (map content comments)
        \<and> length comments \<le> MAX_COMMENTS
        \<and> list_all (\<lambda>c. length (content c) < MAX_LENGTH) comments"
  proof (cases lang)
    case LANG_PYTHON
    with run have "extract_comments_python_loop source_code 1 [] [] = Inr (comments, code_without_comments)"
      by (simp add: extract_comments_def extract_comments_python_def)
    from python_loop_interleaved[OF this] python_loop_bounds[OF this] show ?thesis by simp
  next
    case LANG_TYPESCRIPT
    with run have "extract_comments_typescript_loop source_code 1 [] [] = Inr (comments, code_without_comments)"
      by (simp add: extract_comments_def extract_comments_typescript_def)
    from typescript_loop_interleaved[OF this] typescript_loop_bounds[OF this] show ?thesis by simp
  qed
qed

theorem extract_comments_round_trip_witness:
  "length ''a = 1 # one'' < MAX_LENGTH
   \<and> length (filter comment_mark ''a = 1 # one'') \<le> MAX_COMMENTS
   \<and> extract_comments LANG_PYTHON ''a = 1 # one'' = Inr ([\<lparr>content = ''# one'', start_line = 1, end_line = 1, is_multiline = False\<rparr>], ''a = 1 '')
   \<and> interleaved ''a = 1 # one'' ''a = 1 '' [''# one'']
   \<and> length ''a /* b */ c'' < MAX_LENGTH
   \<and> length (filter comment_mark ''a /* b */ c'') \<le> MAX_COMMENTS
   \<and> extract_comments LANG_TYPESCRIPT ''a /* b */ c'' = Inr ([\<lparr>content = ''/* b */'', start_line = 1, end_line = 1, is_multiline = True\<rparr>], ''a  c'')
   \<and> interleaved ''a /* b */ c'' ''a  c'' [''/* b */'']"
proof -
  have bounds: "length ''a = 1 # one'' < MAX_LENGTH"
    "length (filter comment_mark ''a = 1 # one'') \<le> MAX_COMMENTS"
    "length ''a /* b */ c'' < MAX_LENGTH"
    "length (filter comment_mark ''a /* b */ c'') \<le> MAX_COMMENTS"
    by (simp_all add: MAX_LENGTH_def MAX_COMMENTS_def)
  have py: "extract_comments LANG_PYTHON ''a = 1 # one'' = Inr ([\<lparr>content = ''# one'', start_line = 1, end_line = 1, is_multiline = False\<rparr>], ''a = 1 '')"
    by code_simp
  have ts: "extract_comments LANG_TYPESCRIPT ''a /* b */ c'' = Inr ([\<lparr>content = ''/* b */'', start_line = 1, end_line = 1, is_multiline = True\<rparr>], ''a  c'')"
    by code_simp
  from py
    extract_comments_round_trip[of "''a = 1 # one''" LANG_PYTHON
      "[\<lparr>content = ''# one'', start_line = 1, end_line = 1, is_multiline = False\<rparr>]" "''a = 1 ''"]
  have a: "interleaved ''a = 1 # one'' ''a = 1 '' [''# one'']"
    by simp
  from ts
    extract_comments_round_trip[of "''a /* b */ c''" LANG_TYPESCRIPT
      "[\<lparr>content = ''/* b */'', start_line = 1, end_line = 1, is_multiline = True\<rparr>]" "''a  c''"]
  have b: "interleaved ''a /* b */ c'' ''a  c'' [''/* b */'']"
    by simp
  from bounds py ts a b show ?thesis by (intro conjI)
qed

subsection \<open>A hash sign inside a string literal\<close>





end
